theory Spec2Isabelle
  imports Main
begin

section \<open>Strings and numbers of the source language\<close>

text \<open>
  Source strings are modelled as HOL strings: lists of 8-bit characters. Code units above
  255 are outside the model. Numbers are modelled as integers; fractional values, NaN
  (where it is not written out as \<open>None\<close>) and infinities are outside the model.
\<close>

text \<open>The regular-expression class \<open>\d\<close>: the ten ASCII digits.\<close>

definition is_digit :: "char \<Rightarrow> bool" where
  "is_digit c = (c \<in> set ''0123456789'')"

text \<open>The regular-expression class \<open>\s\<close> (also the characters removed by \<open>trim\<close> and skipped by
  \<open>parseInt\<close>), restricted to 8-bit code units: tab, line feed, vertical tab, form feed,
  carriage return, space and no-break space.\<close>

definition is_space :: "char \<Rightarrow> bool" where
  "is_space c = ((of_char c :: nat) \<in> {9, 10, 11, 12, 13, 32, 160})"

text \<open>The regular-expression class \<open>[A-Za-z]\<close>.\<close>

definition is_alpha :: "char \<Rightarrow> bool" where
  "is_alpha c = (c \<in> set ''abcdefghijklmnopqrstuvwxyzABCDEFGHIJKLMNOPQRSTUVWXYZ'')"

text \<open>The regular-expression class \<open>[A-Za-z_]\<close>.\<close>

definition is_alpha_us :: "char \<Rightarrow> bool" where
  "is_alpha_us c = (is_alpha c \<or> c = CHR ''_'')"

text \<open>The regular-expression class \<open>[\s,]\<close>.\<close>

definition is_sep :: "char \<Rightarrow> bool" where
  "is_sep c = (is_space c \<or> c = CHR '','')"

text \<open>\<open>String.prototype.toUpperCase\<close> and \<open>toLowerCase\<close> on the ASCII letters; every other
  character is kept. The source applies them to text matched by ASCII classes, and to a
  string in which it then looks for an ASCII substring; there the letters beyond ASCII make
  no difference. The same functions express the case-insensitive matches of the regular
  expressions, in which no character beyond ASCII matches an ASCII letter.\<close>

definition toUpperCase_char :: "char \<Rightarrow> char" where
  "toUpperCase_char c = (case map_of (zip ''abcdefghijklmnopqrstuvwxyz'' ''ABCDEFGHIJKLMNOPQRSTUVWXYZ'') c of Some u \<Rightarrow> u | None \<Rightarrow> c)"

definition toUpperCase :: "string \<Rightarrow> string" where
  "toUpperCase s = map toUpperCase_char s"

definition toLowerCase_char :: "char \<Rightarrow> char" where
  "toLowerCase_char c = (case map_of (zip ''ABCDEFGHIJKLMNOPQRSTUVWXYZ'' ''abcdefghijklmnopqrstuvwxyz'') c of Some u \<Rightarrow> u | None \<Rightarrow> c)"

definition toLowerCase :: "string \<Rightarrow> string" where
  "toLowerCase s = map toLowerCase_char s"

text \<open>\<open>String.prototype.trim\<close>.\<close>

definition trim :: "string \<Rightarrow> string" where
  "trim s = rev (dropWhile is_space (rev (dropWhile is_space s)))"

text \<open>\<open>s.includes(t)\<close>: \<open>t\<close> occurs in \<open>s\<close> as a contiguous substring.\<close>

fun str_includes :: "string \<Rightarrow> string \<Rightarrow> bool" where
  "str_includes [] t = (t = [])"
| "str_includes (c # s) t = (take (length t) (c # s) = t \<or> str_includes s t)"

text \<open>The comparison \<open>s > t\<close> of two strings: lexicographic on the code units, a proper
  extension being greater than its prefix.\<close>

fun str_gt :: "string \<Rightarrow> string \<Rightarrow> bool" where
  "str_gt [] t = False"
| "str_gt (c # s) [] = True"
| "str_gt (c # s) (d # t) =
     ((of_char c :: nat) > of_char d \<or> (c = d \<and> str_gt s t))"

text \<open>\<open>String(n)\<close> for an integer \<open>n\<close>: its decimal numeral, with a minus sign when negative.\<close>

definition digit_char :: "nat \<Rightarrow> char" where
  "digit_char n = ''0123456789'' ! (n mod 10)"

definition digit_val :: "char \<Rightarrow> nat" where
  "digit_val c = of_char c - 48"

fun string_of_nat :: "nat \<Rightarrow> string" where
  "string_of_nat n = (if n < 10 then [digit_char n] else string_of_nat (n div 10) @ [digit_char (n mod 10)])"

declare string_of_nat.simps [simp del]

definition string_of_int :: "int \<Rightarrow> string" where
  "string_of_int i = (if i < 0 then CHR ''-'' # string_of_nat (nat (- i)) else string_of_nat (nat i))"

text \<open>\<open>s.padStart(n, c)\<close> with a one-character filler.\<close>

definition padStart :: "nat \<Rightarrow> char \<Rightarrow> string \<Rightarrow> string" where
  "padStart n c s = replicate (n - length s) c @ s"

text \<open>\<open>parseInt(s, 10)\<close>: leading white space is skipped, an optional sign is read, then the
  longest run of digits; with no digit the result is NaN, modelled as \<open>None\<close>.\<close>

definition digits_value :: "string \<Rightarrow> nat" where
  "digits_value ds = foldl (\<lambda>a c. 10 * a + digit_val c) 0 ds"

definition parseInt :: "string \<Rightarrow> int option" where
  "parseInt s =
     (let t = dropWhile is_space s;
          neg = (take 1 t = ''-'');
          u = (if take 1 t = ''-'' \<or> take 1 t = ''+'' then drop 1 t else t);
          ds = takeWhile is_digit u
      in if ds = [] then None
         else Some (if neg then - int (digits_value ds) else int (digits_value ds)))"

text \<open>\<open>xs.slice(0, e)\<close>: a negative end counts from the end of the array.\<close>

definition slice0 :: "'a list \<Rightarrow> int \<Rightarrow> 'a list" where
  "slice0 xs e = (if e < 0 then take (nat (int (length xs) + e)) xs else take (nat e) xs)"

section \<open>Time utilities (parseTime, formatTime12h)\<close>

text \<open>The object \<open>{ hour, minute }\<close> returned by \<open>parseTime\<close>.\<close>

record hm =
  hour :: int
  minute :: int

text \<open>The match of \<open>/^(\d{1,2}):(\d{2})\s*(AM|PM)$/i\<close>, returning the three groups. The
  greedy group \<open>\d{1,2}\<close> must be followed by a colon, so it is the whole leading run of
  digits, of length one or two.\<close>

definition match12h :: "string \<Rightarrow> (string \<times> string \<times> string) option" where
  "match12h s =
     (let h = takeWhile is_digit s; r = dropWhile is_digit s in
      if (length h = 1 \<or> length h = 2) \<and> take 1 r = '':'' then
        (let m = take 2 (drop 1 r); r2 = dropWhile is_space (drop 3 r) in
         if length m = 2 \<and> list_all is_digit m \<and> (toUpperCase r2 = ''AM'' \<or> toUpperCase r2 = ''PM'')
         then Some (h, m, r2) else None)
      else None)"

text \<open>The match of \<open>/^(\d{1,2}):(\d{2})$/\<close>, returning the two groups.\<close>

definition match24h :: "string \<Rightarrow> (string \<times> string) option" where
  "match24h s =
     (let h = takeWhile is_digit s; r = dropWhile is_digit s in
      if (length h = 1 \<or> length h = 2) \<and> take 1 r = '':'' then
        (let m = take 2 (drop 1 r) in
         if length m = 2 \<and> list_all is_digit m \<and> drop 3 r = [] then Some (h, m) else None)
      else None)"

text \<open>\<open>parseTime\<close>: the 12-hour form is tried first, then the 24-hour form; \<open>None\<close> is the
  source's \<open>null\<close>. Both groups are runs of digits, so \<open>parseInt\<close> never yields NaN here
  and the NaN branches are unreachable.\<close>

definition parseTime :: "string \<Rightarrow> hm option" where
  "parseTime timeStr =
     (case match12h timeStr of
        Some (g1, g2, g3) \<Rightarrow>
          (case (parseInt g1, parseInt g2) of
             (Some h0, Some mi) \<Rightarrow>
               (let isPM = (toUpperCase g3 = ''PM'');
                    h1 = (if isPM \<and> h0 \<noteq> 12 then h0 + 12 else h0);
                    h2 = (if \<not> isPM \<and> h1 = 12 then 0 else h1)
                in Some \<lparr>hour = h2, minute = mi\<rparr>)
           | _ \<Rightarrow> None)
      | None \<Rightarrow>
          (case match24h timeStr of
             Some (g1, g2) \<Rightarrow>
               (case (parseInt g1, parseInt g2) of
                  (Some h0, Some mi) \<Rightarrow> Some \<lparr>hour = h0, minute = mi\<rparr>
                | _ \<Rightarrow> None)
           | None \<Rightarrow> None))"

text \<open>\<open>formatTime12h\<close>: hour and minute back to the 12-hour form.\<close>

definition formatTime12h :: "int \<Rightarrow> int \<Rightarrow> string" where
  "formatTime12h hr mn =
     (let ampm = (if hr \<ge> 12 then ''PM'' else ''AM'');
          d1 = (if hr > 12 then hr - 12 else hr);
          displayHour = (if d1 = 0 then 12 else d1)
      in string_of_int displayHour @ '':'' @ padStart 2 (CHR ''0'') (string_of_int mn) @ '' '' @ ampm)"

section \<open>The date and time parser of the booking endpoint\<close>

text \<open>The replacement of \<open>/^(Monday|...|Sunday),\s*/i\<close> by the empty string: a leading day of
  the week, its comma and the white space after it are removed.\<close>

definition dayNames :: "string list" where
  "dayNames = [''monday'', ''tuesday'', ''wednesday'', ''thursday'', ''friday'', ''saturday'', ''sunday'']"

definition strip_weekday :: "string \<Rightarrow> string" where
  "strip_weekday s =
     (case find (\<lambda>d. toLowerCase (take (length d) s) = d \<and> take 1 (drop (length d) s) = '','') dayNames of
        Some d \<Rightarrow> dropWhile is_space (drop (length d + 1) s)
      | None \<Rightarrow> s)"

text \<open>The search for \<open>/\s+([A-Za-z]+\/[A-Za-z_]+)[\s,]*$/\<close>, read from the end of the string:
  the trailing separators, the part after the slash, the slash, the letters before it and at
  least one white-space character before those. The result is the group and the text in
  front of the match.\<close>

definition match_iana :: "string \<Rightarrow> (string \<times> string) option" where
  "match_iana s =
     (let r1 = dropWhile is_sep (rev s);
          m = takeWhile is_alpha_us r1; r2 = dropWhile is_alpha_us r1;
          l = takeWhile is_alpha (drop 1 r2); r3 = dropWhile is_alpha (drop 1 r2)
      in if m \<noteq> [] \<and> take 1 r2 = ''/'' \<and> l \<noteq> [] \<and> r3 \<noteq> [] \<and> is_space (hd r3)
         then Some (rev l @ ''/'' @ rev m, rev (dropWhile is_space r3))
         else None)"

text \<open>The search for \<open>/\s+([A-Z]{2,4})[\s,]*$/i\<close>: a final word of two to four letters with
  white space in front of it.\<close>

definition match_abbrev :: "string \<Rightarrow> (string \<times> string) option" where
  "match_abbrev s =
     (let r1 = dropWhile is_sep (rev s);
          l = takeWhile is_alpha r1; r2 = dropWhile is_alpha r1
      in if 2 \<le> length l \<and> length l \<le> 4 \<and> r2 \<noteq> [] \<and> is_space (hd r2)
         then Some (rev l, rev (dropWhile is_space r2))
         else None)"

text \<open>The common prefix \<open>^([A-Za-z]+)\s+(\d{1,2}),\s+(\d{4})\s+\<close> of the two date patterns:
  month name, day, year, and the rest of the string.\<close>

definition match_date_prefix :: "string \<Rightarrow> (string \<times> string \<times> string \<times> string) option" where
  "match_date_prefix s =
     (let monthName = takeWhile is_alpha s; s1 = dropWhile is_alpha s;
          s2 = dropWhile is_space s1;
          day = takeWhile is_digit s2; s3 = dropWhile is_digit s2;
          s4 = dropWhile is_space (drop 1 s3);
          year = takeWhile is_digit s4; s5 = dropWhile is_digit s4;
          s6 = dropWhile is_space s5
      in if monthName \<noteq> [] \<and> s2 \<noteq> s1 \<and> (length day = 1 \<or> length day = 2) \<and> take 1 s3 = '','' \<and>
            s4 \<noteq> drop 1 s3 \<and> length year = 4 \<and> s6 \<noteq> s5
         then Some (monthName, day, year, s6) else None)"

text \<open>The part \<open>at\s+\<close> of the first pattern (case-insensitive).\<close>

definition match_at :: "string \<Rightarrow> string option" where
  "match_at s =
     (if toLowerCase (take 2 s) = ''at'' \<and> dropWhile is_space (drop 2 s) \<noteq> drop 2 s
      then Some (dropWhile is_space (drop 2 s)) else None)"

text \<open>The table \<open>monthMap\<close>. The source looks the lower-cased month name up in an object
  literal, so the inherited property \<open>constructor\<close> is found as well: its value is a function,
  which is truthy and is then printed by the template string.\<close>

definition monthMap :: "(string \<times> nat) list" where
  "monthMap = [(''january'', 1), (''jan'', 1), (''february'', 2), (''feb'', 2),
    (''march'', 3), (''mar'', 3), (''april'', 4), (''apr'', 4),
    (''may'', 5), (''june'', 6), (''jun'', 6), (''july'', 7), (''jul'', 7),
    (''august'', 8), (''aug'', 8), (''september'', 9), (''sep'', 9), (''sept'', 9),
    (''october'', 10), (''oct'', 10), (''november'', 11), (''nov'', 11),
    (''december'', 12), (''dec'', 12)]"

definition month_text :: "string \<Rightarrow> string option" where
  "month_text monthName =
     (case map_of monthMap (toLowerCase monthName) of
        Some m \<Rightarrow> Some (padStart 2 (CHR ''0'') (string_of_nat m))
      | None \<Rightarrow>
          if toLowerCase monthName = ''constructor''
          then Some ''function Object() { [native code] }''
          else None)"

text \<open>\<open>parseDateTimeComponents\<close> as the booking endpoint calls it, without a target timezone:
  no conversion takes place and the date and the time are assembled from the groups.\<close>

definition parseDateTimeComponents :: "string \<Rightarrow> string \<Rightarrow> string \<Rightarrow> string \<Rightarrow> string \<Rightarrow> string \<Rightarrow> (string \<times> string) option" where
  "parseDateTimeComponents monthName day year hr mi ampm =
     (case month_text monthName of
        None \<Rightarrow> None
      | Some mt \<Rightarrow>
          Some (year @ ''-'' @ mt @ ''-'' @ padStart 2 (CHR ''0'') day,
                hr @ '':'' @ mi @ '' '' @ toUpperCase ampm))"

text \<open>\<open>parseDateTime(dateTimeString)\<close>. When a timezone is found at the end, the source
  computes the cleaned string from the original string again, so the removal of the day of
  the week is lost in that case.\<close>

definition parseDateTime :: "string \<Rightarrow> (string \<times> string) option" where
  "parseDateTime dateTimeString =
     (let cleaned0 = strip_weekday dateTimeString;
          cleaned =
            (case match_iana dateTimeString of
               Some (tz, rest) \<Rightarrow> trim rest
             | None \<Rightarrow>
                 (case match_abbrev dateTimeString of
                    Some (tz, rest) \<Rightarrow>
                      if toUpperCase tz \<noteq> ''AM'' \<and> toUpperCase tz \<noteq> ''PM'' then trim rest else cleaned0
                  | None \<Rightarrow> cleaned0))
      in case match_date_prefix cleaned of
           None \<Rightarrow> None
         | Some (monthName, day, year, rest) \<Rightarrow>
             (case (case match_at rest of Some rest' \<Rightarrow> match12h rest' | None \<Rightarrow> match12h rest) of
                None \<Rightarrow> None
              | Some (hr, mi, ampm) \<Rightarrow> parseDateTimeComponents monthName day year hr mi ampm))"

section \<open>The environment of a browser session\<close>

text \<open>A thrown value: the name of its class and its message. \<open>new Error(m)\<close> is
  \<open>JsError ''Error'' m\<close>.\<close>

datatype js_error = JsError (err_name: string) (message: string)

text \<open>Browser handles, browser contexts and pages are opaque references, modelled as numbers.
  A lock is the release callback returned by one call of \<open>acquireContextLock\<close>; it is
  identified by the position of that call in the trace.\<close>

type_synonym handle = nat

type_synonym browser_context = nat

type_synonym page_id = nat

type_synonym lock = nat

text \<open>The object \<open>{ browser, context, page }\<close>.\<close>

record browser_instance =
  inst_browser :: "handle option"
  inst_context :: "browser_context option"
  inst_page :: "page_id option"

text \<open>The calls a run makes on the browser pool, the browser, the instance registry and the
  Concurrency Manager, each with its result where it has one (\<open>Inl\<close> is a thrown error).
  \<open>Navigate\<close> stands for the whole navigation phase of \<open>createInstanceForEmail\<close> (routing,
  \<open>goto\<close>, the clicks, waiting for the calendar); \<open>DriveBooking\<close> stands for the steps of the
  booking task on the calendar page; \<open>Sleep n\<close> is a delay of \<open>n\<close> milliseconds.\<close>

datatype event =
    GetBrowser "js_error + handle"
  | AcquireContextLock "handle option" "js_error + lock"
  | ReleaseLock lock
  | ReleaseBrowser "handle option"
  | IsConnected handle bool
  | NewContext handle "js_error + browser_context"
  | NewPage browser_context "js_error + page_id"
  | Sleep nat
  | Navigate page_id string "js_error option"
  | PageIsClosed page_id bool
  | PageClose page_id
  | ContextClose browser_context
  | Execute "js_error option"
  | GetExistingInstance string "browser_instance option"
  | RegisterInstance string browser_instance
  | DriveBooking "page_id option" "js_error option"
  | CleanupInstance string
  | ScrapeSlots

text \<open>The environment: what each call returns. The source of the browser pool, of the
  automation library, of the instance registry and of the Concurrency Manager is not part of
  the repository's files, so their answers are parameters. The answers to the calls made by
  \<open>createInstanceForEmail\<close> are indexed by the length of its trace at the time of the call. Every
  awaited call is taken to settle; \<open>isConnected\<close>, \<open>isClosed\<close>, the release callback and
  \<open>releaseBrowser\<close> are taken not to throw.\<close>

record world =
  getBrowser_result :: "nat \<Rightarrow> js_error + handle"
  acquireContextLock_result :: "nat \<Rightarrow> js_error option"
  isConnected_result :: "nat \<Rightarrow> bool"
  newContext_result :: "nat \<Rightarrow> js_error + browser_context"
  newPage_result :: "nat \<Rightarrow> js_error + page_id"
  navigation_result :: "nat \<Rightarrow> js_error option"
  isClosed_result :: "nat \<Rightarrow> bool"
  buildUrl_result :: "js_error + string"
  admission_result :: "js_error option"
  timeout_result :: "js_error option"
  existingInstance_result :: "browser_instance option"
  booking_result :: "js_error option"
  date_now :: int

text \<open>The local variables of \<open>createInstanceForEmail\<close> (\<open>null\<close> is \<open>None\<close>) and the trace of
  the calls made so far.\<close>

record vars =
  browser :: "handle option"
  ctx :: "browser_context option"
  page :: "page_id option"
  releaseLock :: "lock option"
  trace :: "event list"

section \<open>Creating a browser instance (createInstanceForEmail)\<close>

text \<open>Appending a call to the trace; the number of calls made so far.\<close>

definition log :: "event \<Rightarrow> vars \<Rightarrow> vars" where
  "log e v = v\<lparr>trace := trace v @ [e]\<rparr>"

definition now :: "vars \<Rightarrow> nat" where
  "now v = length (trace v)"

text \<open>Sequencing of two steps: an error thrown by the first skips the second.\<close>

definition and_then :: "js_error option \<times> vars \<Rightarrow> (vars \<Rightarrow> js_error option \<times> vars) \<Rightarrow> js_error option \<times> vars" where
  "and_then r f = (case r of (Some e, v) \<Rightarrow> (Some e, v) | (None, v) \<Rightarrow> f v)"

text \<open>The error of a method call on \<open>null\<close>.\<close>

definition type_error :: js_error where
  "type_error = JsError ''TypeError'' ''Cannot read properties of null''"

text \<open>\<open>if (releaseLock) releaseLock();\<close>\<close>

definition release_lock_if_set :: "vars \<Rightarrow> vars" where
  "release_lock_if_set v = (case releaseLock v of Some l \<Rightarrow> log (ReleaseLock l) v | None \<Rightarrow> v)"

text \<open>\<open>browserPool.releaseBrowser(browser);\<close>\<close>

definition releaseBrowser :: "vars \<Rightarrow> vars" where
  "releaseBrowser v = log (ReleaseBrowser (browser v)) v"

text \<open>\<open>browser = await browserPool.getBrowser();\<close>\<close>

definition getBrowser :: "world \<Rightarrow> vars \<Rightarrow> js_error option \<times> vars" where
  "getBrowser w v =
     (case getBrowser_result w (now v) of
        Inl e \<Rightarrow> (Some e, log (GetBrowser (Inl e)) v)
      | Inr b \<Rightarrow> (None, (log (GetBrowser (Inr b)) v)\<lparr>browser := Some b\<rparr>))"

text \<open>\<open>releaseLock = await browserPool.acquireContextLock(browser);\<close>\<close>

definition acquireContextLock :: "world \<Rightarrow> vars \<Rightarrow> js_error option \<times> vars" where
  "acquireContextLock w v =
     (case acquireContextLock_result w (now v) of
        Some e \<Rightarrow> (Some e, log (AcquireContextLock (browser v) (Inl e)) v)
      | None \<Rightarrow> (None, (log (AcquireContextLock (browser v) (Inr (now v))) v)\<lparr>releaseLock := Some (now v)\<rparr>))"

text \<open>The four statements that occur both after a failed connectivity check and before a retry:
  release the lock, return the handle, get a handle, acquire its lock.\<close>

definition replace_browser :: "world \<Rightarrow> vars \<Rightarrow> js_error option \<times> vars" where
  "replace_browser w v =
     and_then (getBrowser w (releaseBrowser (release_lock_if_set v))) (acquireContextLock w)"

text \<open>\<open>context = await browser.newContext(...)\<close> and \<open>page = await context.newPage()\<close>.\<close>

definition newContext :: "world \<Rightarrow> vars \<Rightarrow> js_error option \<times> vars" where
  "newContext w v =
     (case browser v of
        None \<Rightarrow> (Some type_error, v)
      | Some b \<Rightarrow>
          (case newContext_result w (now v) of
             Inl e \<Rightarrow> (Some e, log (NewContext b (Inl e)) v)
           | Inr c \<Rightarrow> (None, (log (NewContext b (Inr c)) v)\<lparr>ctx := Some c\<rparr>)))"

definition newPage :: "world \<Rightarrow> vars \<Rightarrow> js_error option \<times> vars" where
  "newPage w v =
     (case ctx v of
        None \<Rightarrow> (Some type_error, v)
      | Some c \<Rightarrow>
          (case newPage_result w (now v) of
             Inl e \<Rightarrow> (Some e, log (NewPage c (Inl e)) v)
           | Inr p \<Rightarrow> (None, (log (NewPage c (Inr p)) v)\<lparr>page := Some p\<rparr>)))"

definition create_context_and_page :: "world \<Rightarrow> vars \<Rightarrow> js_error option \<times> vars" where
  "create_context_and_page w v = and_then (newContext w v) (newPage w)"

text \<open>The body of the \<open>try\<close> block inside the retry loop: the connectivity check, the
  replacement of a disconnected handle, and the creation of context and page.\<close>

definition attempt :: "world \<Rightarrow> vars \<Rightarrow> js_error option \<times> vars" where
  "attempt w v =
     (case browser v of
        None \<Rightarrow> (Some type_error, v)
      | Some b \<Rightarrow>
          (let connected = isConnected_result w (now v);
               v1 = log (IsConnected b connected) v
           in and_then (if \<not> connected then replace_browser w v1 else (None, v1))
                (create_context_and_page w)))"

text \<open>\<open>error.message && error.message.includes('has been closed')\<close>\<close>

definition retryable :: "js_error \<Rightarrow> bool" where
  "retryable e = (message e \<noteq> [] \<and> str_includes (message e) ''has been closed'')"

text \<open>The loop \<open>while (retries > 0)\<close>. The argument is the value of \<open>retries\<close>; in the
  \<open>catch\<close> block it has already been decremented when it is compared with zero. A successful
  attempt leaves the loop (\<open>break\<close>); an error thrown in the \<open>catch\<close> block leaves it as well.\<close>

fun retry_loop :: "world \<Rightarrow> nat \<Rightarrow> vars \<Rightarrow> js_error option \<times> vars" where
  "retry_loop w 0 v = (None, v)"
| "retry_loop w (Suc retries) v =
     (case attempt w v of
        (None, v1) \<Rightarrow> (None, v1)
      | (Some e, v1) \<Rightarrow>
          if retryable e \<and> retries > 0 then
            and_then (replace_browser w v1) (\<lambda>v2. retry_loop w retries (log (Sleep 100) v2))
          else (Some e, releaseBrowser (release_lock_if_set v1)))"

text \<open>The navigation phase after the loop.\<close>

definition navigate :: "world \<Rightarrow> string \<Rightarrow> vars \<Rightarrow> js_error option \<times> vars" where
  "navigate w targetUrl v =
     (case page v of
        None \<Rightarrow> (Some type_error, v)
      | Some p \<Rightarrow> (navigation_result w (now v), log (Navigate p targetUrl (navigation_result w (now v))) v))"

text \<open>The outer \<open>try\<close> block. The second argument is the result of
  \<open>buildParameterizedUrlOptional\<close>, which throws when \<open>new URL\<close> rejects the base URL.\<close>

definition create_body :: "world \<Rightarrow> string \<Rightarrow> js_error + string \<Rightarrow> vars \<Rightarrow> js_error option \<times> vars" where
  "create_body w chiliPiperUrl built v0 =
     (if chiliPiperUrl = [] then (Some (JsError ''Error'' ''chili_piper_url is required''), v0)
      else case built of
        Inl e \<Rightarrow> (Some e, v0)
      | Inr targetUrl \<Rightarrow>
          and_then (getBrowser w v0) (\<lambda>v1.
          and_then (acquireContextLock w v1) (\<lambda>v2.
          and_then (retry_loop w 3 v2) (\<lambda>v3.
            let v4 = (case releaseLock v3 of
                        Some l \<Rightarrow> (log (ReleaseLock l) v3)\<lparr>releaseLock := None\<rparr>
                      | None \<Rightarrow> v3)
            in if page v4 = None
               then (Some (JsError ''Error'' ''Failed to create browser context after retries''),
                     releaseBrowser v4)
               else navigate w targetUrl v4))))"

text \<open>The outer \<open>catch\<close> block; rejections of \<open>page.close()\<close> and \<open>context.close()\<close> are
  swallowed by the source.\<close>

definition cleanup :: "world \<Rightarrow> vars \<Rightarrow> vars" where
  "cleanup w v =
     (let v1 = release_lock_if_set v;
          v2 = (case page v1 of
                  Some p \<Rightarrow>
                    (let closed = isClosed_result w (now v1);
                         v' = log (PageIsClosed p closed) v1
                     in if \<not> closed then log (PageClose p) v' else v')
                | None \<Rightarrow> v1);
          v3 = (case ctx v2 of Some c \<Rightarrow> log (ContextClose c) v2 | None \<Rightarrow> v2)
      in if browser v3 \<noteq> None then releaseBrowser v3 else v3)"

text \<open>\<open>createInstanceForEmail\<close>: the instance, or \<open>null\<close> after the cleanup, together with the
  trace of the run.\<close>

definition initial_vars :: vars where
  "initial_vars = \<lparr>browser = None, ctx = None, page = None, releaseLock = None, trace = []\<rparr>"

definition createInstanceForEmail :: "world \<Rightarrow> string \<Rightarrow> js_error + string \<Rightarrow> browser_instance option \<times> event list" where
  "createInstanceForEmail w chiliPiperUrl built =
     (case create_body w chiliPiperUrl built initial_vars of
        (None, v) \<Rightarrow> (Some \<lparr>inst_browser = browser v, inst_context = ctx v, inst_page = page v\<rparr>, trace v)
      | (Some e, v) \<Rightarrow> (None, trace (cleanup w v)))"

section \<open>The booking endpoint\<close>

text \<open>The outcome of the security middleware for a booking request: whether the request is
  admitted, and the fields of the sanitized body (an absent field is the empty string).\<close>

record book_request =
  allowed :: bool
  body_email :: string
  body_firstName :: string
  body_lastName :: string
  body_phone :: string
  body_custom_params :: "(string \<times> string) list option"
  body_dateTime :: string
  body_chili_piper_url :: string
  body_timezone :: string

text \<open>The data of a success response. The field \<open>dateTime\<close> of the source, a rendering of
  date and time with the day of the week, is not modelled.\<close>

record booking_data =
  resp_message :: string
  resp_date :: string
  resp_time :: string
  testMode :: bool

text \<open>A scraped slot and the data of a scraping result.\<close>

type_synonym slot = "string \<times> string"

record scrape_data =
  slots :: "slot list option"
  total_slots :: int
  total_days :: int
  data_timezone :: "string option"

text \<open>The responses of the two endpoints: an error with its code and, where the source fixes
  it, its HTTP status; the code \<open>PARSED_ERROR\<close> stands for the result of
  \<open>ErrorHandler.parseError\<close>, whose source is not part of the repository's files.\<close>

datatype response =
    ErrorResponse string "nat option"
  | BookingSuccess booking_data
  | SlotsSuccess "scrape_data option"

text \<open>\<open>a || b\<close> on strings, and the lookup of a custom parameter.\<close>

definition or_else :: "string \<Rightarrow> string \<Rightarrow> string" where
  "or_else a b = (if a \<noteq> [] then a else b)"

definition param :: "(string \<times> string) list \<Rightarrow> string \<Rightarrow> string" where
  "param ps k = (case map_of ps k of Some x \<Rightarrow> x | None \<Rightarrow> [])"

text \<open>The email of a request: the top-level field, else the one in \<open>custom_params\<close>.\<close>

definition effective_email :: "book_request \<Rightarrow> string" where
  "effective_email req =
     (case body_custom_params req of
        Some ps \<Rightarrow> or_else (body_email req) (param ps ''email'')
      | None \<Rightarrow> body_email req)"

text \<open>\<open>const instanceKey = email || `booking_${Date.now()}`;\<close>\<close>

definition instanceKey :: "string \<Rightarrow> int \<Rightarrow> string" where
  "instanceKey email t = (if email \<noteq> [] then email else ''booking_'' @ string_of_int t)"

text \<open>The steps of the booking task on the calendar page, and the cleanup of the instance after
  a successful booking: \<open>browserInstanceManager.cleanupInstance(email)\<close>.\<close>

definition drive_booking :: "world \<Rightarrow> string \<Rightarrow> string \<Rightarrow> string \<Rightarrow> browser_instance \<Rightarrow> event list \<Rightarrow>
    (js_error + string \<times> string) \<times> event list" where
  "drive_booking w email date time inst tr =
     (case booking_result w of
        Some e \<Rightarrow> (Inl e, tr @ [DriveBooking (inst_page inst) (Some e)])
      | None \<Rightarrow> (Inr (date, time), tr @ [DriveBooking (inst_page inst) None, CleanupInstance email]))"

text \<open>The task submitted by the booking endpoint: look an instance up when an email is given,
  create and register one otherwise, then book.\<close>

definition booking_task :: "world \<Rightarrow> string \<Rightarrow> string \<Rightarrow> string \<Rightarrow> string \<Rightarrow>
    (js_error + string \<times> string) \<times> event list" where
  "booking_task w email chili_piper_url date time =
     (let found = (if email \<noteq> [] then existingInstance_result w else None);
          tr0 = (if email \<noteq> [] then [GetExistingInstance email (existingInstance_result w)] else [])
      in case found of
           None \<Rightarrow>
             (case createInstanceForEmail w chili_piper_url (buildUrl_result w) of
                (None, tr1) \<Rightarrow>
                  (Inl (JsError ''Error'' ''Failed to create browser instance''), tr0 @ tr1)
              | (Some newInstance, tr1) \<Rightarrow>
                  drive_booking w email date time newInstance
                    (tr0 @ tr1 @ [RegisterInstance email newInstance]))
         | Some inst \<Rightarrow> drive_booking w email date time inst tr0)"

text \<open>The \<open>catch\<close> block of the booking endpoint.\<close>

definition error_response :: "js_error \<Rightarrow> response" where
  "error_response e =
     (let m = message e in
      if m \<noteq> [] \<and> str_includes m ''timeout'' then ErrorResponse ''REQUEST_TIMEOUT'' (Some 504)
      else if m \<noteq> [] \<and> str_includes m ''queue is full'' then ErrorResponse ''QUEUE_FULL'' (Some 503)
      else if m \<noteq> [] \<and> (str_includes m ''Time slot button not found'' \<or> str_includes m ''Time slot not found'')
        then ErrorResponse ''SLOT_NOT_FOUND'' (Some 500)
      else if m \<noteq> [] \<and> (str_includes m ''Day button not found'' \<or> str_includes m ''day button not found'')
        then ErrorResponse ''DAY_BUTTON_NOT_FOUND'' (Some 500)
      else ErrorResponse ''PARSED_ERROR'' None)"

text \<open>\<open>concurrencyManager.execute(task, 30000)\<close>: the manager rejects the task, or runs it and
  either reports a timeout or passes its outcome on.\<close>

definition execute_booking :: "world \<Rightarrow> string \<Rightarrow> string \<Rightarrow> string \<Rightarrow> string \<Rightarrow>
    (js_error + string \<times> string) \<times> event list" where
  "execute_booking w email chili_piper_url date time =
     (case admission_result w of
        Some e \<Rightarrow> (Inl e, [Execute (Some e)])
      | None \<Rightarrow>
          (case booking_task w email chili_piper_url date time of
             (outcome, tr) \<Rightarrow>
               (case timeout_result w of
                  Some e \<Rightarrow> (Inl e, Execute None # tr)
                | None \<Rightarrow> (outcome, Execute None # tr))))"

text \<open>\<open>POST\<close> of the booking endpoint: the response and the trace of the calls made.\<close>

definition book_slot_POST :: "world \<Rightarrow> book_request \<Rightarrow> response \<times> event list" where
  "book_slot_POST w req =
     (if \<not> allowed req then (ErrorResponse ''UNAUTHORIZED'' None, [])
      else
        let email = effective_email req in
        case parseDateTime (body_dateTime req) of
          None \<Rightarrow> (ErrorResponse ''VALIDATION_ERROR'' (Some 400), [])
        | Some (date, time) \<Rightarrow>
            if str_includes (toLowerCase email) ''test''
            then (BookingSuccess
                    \<lparr>resp_message = ''Slot booked successfully (TEST MODE - no actual booking performed)'',
                     resp_date = date, resp_time = time, testMode = True\<rparr>, [])
            else
              (case execute_booking w email (body_chili_piper_url req) date time of
                 (Inl e, tr) \<Rightarrow> (error_response e, tr)
               | (Inr (d, t), tr) \<Rightarrow>
                   (BookingSuccess
                      \<lparr>resp_message = ''Slot booked successfully'',
                       resp_date = d, resp_time = t, testMode = False\<rparr>, tr)))"

section \<open>The slot-listing endpoint\<close>

text \<open>A field of the request body that may be absent, a number or a string. The numbers are the
  integers below \<open>10^21\<close> in absolute value, which \<open>toString\<close> prints as decimal numerals.\<close>

datatype jsvalue = Absent | Num int | Str string

text \<open>\<open>body.f ? parseInt(body.f.toString(), 10) : undefined\<close>; \<open>None\<close> is \<open>undefined\<close> or NaN,
  both of which are falsy.\<close>

definition to_number :: "jsvalue \<Rightarrow> int option" where
  "to_number v =
     (case v of
        Absent \<Rightarrow> None
      | Num n \<Rightarrow> if n = 0 then None else parseInt (string_of_int n)
      | Str s \<Rightarrow> if s = [] then None else parseInt s)"

text \<open>\<open>x && (x < lo || x > hi)\<close>\<close>

definition out_of_range :: "int option \<Rightarrow> int \<Rightarrow> int \<Rightarrow> bool" where
  "out_of_range x lo hi = (case x of Some n \<Rightarrow> n \<noteq> 0 \<and> (n < lo \<or> n > hi) | None \<Rightarrow> False)"

text \<open>\<open>/^\d{4}-\d{2}-\d{2}$/\<close>\<close>

definition dateRegex :: "string \<Rightarrow> bool" where
  "dateRegex s =
     (length s = 10 \<and> list_all is_digit (take 4 s) \<and> s ! 4 = CHR ''-'' \<and>
      list_all is_digit (take 2 (drop 5 s)) \<and> s ! 7 = CHR ''-'' \<and> list_all is_digit (drop 8 s))"

text \<open>The outcome of the security middleware for a slot-listing request.\<close>

record slots_request =
  gs_allowed :: bool
  gs_max_days :: jsvalue
  gs_max_slots_per_day :: jsvalue
  gs_max_slots :: jsvalue
  gs_timezone :: string
  gs_start_date :: string
  gs_end_date :: string

text \<open>The result of \<open>scraper.scrapeSlots\<close>.\<close>

record scrape_result =
  success :: bool
  data :: "scrape_data option"

text \<open>The environment of the slot-listing endpoint: the answers of the Concurrency Manager and
  of the scraper.\<close>

record slots_world =
  gs_admission_result :: "js_error option"
  gs_scrape_result :: "js_error + scrape_result"
  gs_timeout_result :: "js_error option"

text \<open>The application of \<open>max_slots\<close> to the response data.\<close>

definition limit_slots :: "int option \<Rightarrow> scrape_data option \<Rightarrow> scrape_data option" where
  "limit_slots maxSlots responseData =
     (case (maxSlots, responseData) of
        (Some m, Some d) \<Rightarrow>
          (case slots d of
             Some xs \<Rightarrow>
               if m \<noteq> 0 \<and> int (length xs) > m
               then Some (d\<lparr>slots := Some (slice0 xs m), total_slots := m\<rparr>)
               else Some d
           | None \<Rightarrow> Some d)
      | _ \<Rightarrow> responseData)"

text \<open>The field \<open>timezone\<close> added to the response data.\<close>

definition add_timezone :: "string \<Rightarrow> scrape_data option \<Rightarrow> scrape_data option" where
  "add_timezone userTimezone responseData =
     (case responseData of
        Some d \<Rightarrow> if userTimezone \<noteq> [] then Some (d\<lparr>data_timezone := Some userTimezone\<rparr>) else Some d
      | None \<Rightarrow> None)"

text \<open>The \<open>catch\<close> block of the slot-listing endpoint.\<close>

definition slots_error_response :: "js_error \<Rightarrow> response" where
  "slots_error_response e =
     (let m = message e in
      if m \<noteq> [] \<and> str_includes m ''timeout'' then ErrorResponse ''REQUEST_TIMEOUT'' (Some 504)
      else if m \<noteq> [] \<and> str_includes m ''queue is full'' then ErrorResponse ''QUEUE_FULL'' (Some 503)
      else ErrorResponse ''PARSED_ERROR'' None)"

text \<open>\<open>concurrencyManager.execute(task, 60000)\<close> of the slot-listing endpoint.\<close>

definition execute_scrape :: "slots_world \<Rightarrow> (js_error + scrape_result) \<times> event list" where
  "execute_scrape w =
     (case gs_admission_result w of
        Some e \<Rightarrow> (Inl e, [Execute (Some e)])
      | None \<Rightarrow>
          (case gs_timeout_result w of
             Some e \<Rightarrow> (Inl e, [Execute None, ScrapeSlots])
           | None \<Rightarrow> (gs_scrape_result w, [Execute None, ScrapeSlots])))"

text \<open>\<open>POST\<close> of the slot-listing endpoint.\<close>

definition get_slots_POST :: "slots_world \<Rightarrow> slots_request \<Rightarrow> response \<times> event list" where
  "get_slots_POST w req =
     (if \<not> gs_allowed req then (ErrorResponse ''UNAUTHORIZED'' None, [])
      else
        let requestedDays = to_number (gs_max_days req);
            maxSlotsPerDay = to_number (gs_max_slots_per_day req);
            maxSlots = to_number (gs_max_slots req);
            startDate = gs_start_date req;
            endDate = gs_end_date req
        in
          if out_of_range requestedDays 1 30 then (ErrorResponse ''VALIDATION_ERROR'' (Some 400), [])
          else if out_of_range maxSlotsPerDay 1 50 then (ErrorResponse ''VALIDATION_ERROR'' (Some 400), [])
          else if out_of_range maxSlots 1 100 then (ErrorResponse ''VALIDATION_ERROR'' (Some 400), [])
          else if startDate \<noteq> [] \<and> \<not> dateRegex startDate then (ErrorResponse ''VALIDATION_ERROR'' (Some 400), [])
          else if endDate \<noteq> [] \<and> \<not> dateRegex endDate then (ErrorResponse ''VALIDATION_ERROR'' (Some 400), [])
          else if startDate \<noteq> [] \<and> endDate \<noteq> [] \<and> str_gt startDate endDate
            then (ErrorResponse ''VALIDATION_ERROR'' (Some 400), [])
          else
            (case execute_scrape w of
               (Inl e, tr) \<Rightarrow> (slots_error_response e, tr)
             | (Inr result, tr) \<Rightarrow>
                 if \<not> success result then (ErrorResponse ''PARSED_ERROR'' None, tr)
                 else (SlotsSuccess (add_timezone (gs_timezone req) (limit_slots maxSlots (data result))), tr)))"

section \<open>The Concurrency Manager\<close>

text \<open>Modelled from the spec: the errors of the Concurrency Manager, whose source
  (\<open>@/lib/concurrency-manager\<close>) is not part of the repository's files.\<close>

datatype cm_error = QueueFullError | TimeoutError

text \<open>Modelled from the spec: what happens to a task submitted to the Concurrency Manager, whose
  source is missing (started, queued, or rejected).\<close>

datatype 'a admission = Started | Enqueued | Rejected cm_error

text \<open>Modelled from the spec: the state of the Concurrency Manager, whose source is missing, with
  its capacity, the bound on its queue, the running tasks and the queued tasks in submission
  order.\<close>

record 'a manager =
  capacity :: nat
  maxQueueSize :: nat
  running :: "'a list"
  queue :: "'a list"

text \<open>Modelled from the spec: the snapshot \<open>{active, capacity, queued, queueSize}\<close> of the
  Concurrency Manager, whose source is missing.\<close>

record status =
  st_active :: nat
  st_capacity :: nat
  st_queued :: nat
  st_queueSize :: nat

text \<open>Modelled from the spec: a Concurrency Manager (its source is missing) with no task.\<close>

definition new_manager :: "nat \<Rightarrow> nat \<Rightarrow> 'a manager" where
  "new_manager c q = \<lparr>capacity = c, maxQueueSize = q, running = [], queue = []\<rparr>"

text \<open>Modelled from the spec: \<open>execute(work, timeoutMs)\<close> of the Concurrency Manager, whose
  source is missing, at the submission of a task: "if fewer than capacity tasks are active,
  starts work immediately; else enqueues it (FIFO) up to maxQueueSize; else fails
  immediately with QueueFullError".\<close>

definition execute :: "'a manager \<Rightarrow> 'a \<Rightarrow> 'a admission \<times> 'a manager" where
  "execute m work =
     (if length (running m) < capacity m then (Started, m\<lparr>running := running m @ [work]\<rparr>)
      else if length (queue m) < maxQueueSize m then (Enqueued, m\<lparr>queue := queue m @ [work]\<rparr>)
      else (Rejected QueueFullError, m))"

text \<open>Modelled from the spec: \<open>getStatus()\<close> of the Concurrency Manager, whose source is
  missing.\<close>

definition getStatus :: "'a manager \<Rightarrow> status" where
  "getStatus m = \<lparr>st_active = length (running m), st_capacity = capacity m,
     st_queued = length (queue m), st_queueSize = maxQueueSize m\<rparr>"

text \<open>Modelled from the spec: tasks submitted back to back to the Concurrency Manager (its source
  is missing), none of them finishing in between.\<close>

fun submit_all :: "'a manager \<Rightarrow> 'a list \<Rightarrow> 'a admission list \<times> 'a manager" where
  "submit_all m [] = ([], m)"
| "submit_all m (work # rest) =
     (case execute m work of
        (a, m1) \<Rightarrow> (case submit_all m1 rest of (as, m2) \<Rightarrow> (a # as, m2)))"

section \<open>Observations on traces\<close>

text \<open>The locks held after a trace: a lock is held from its acquisition to the next call of
  its release callback.\<close>

fun lock_step :: "lock set \<Rightarrow> event \<Rightarrow> lock set" where
  "lock_step H (AcquireContextLock b r) = (case r of Inr l \<Rightarrow> insert l H | Inl e \<Rightarrow> H)"
| "lock_step H (ReleaseLock l) = H - {l}"
| "lock_step H _ = H"

definition held_locks :: "event list \<Rightarrow> lock set" where
  "held_locks tr = foldl lock_step {} tr"

text \<open>The handles borrowed after a trace: a handle is borrowed from \<open>getBrowser\<close> to the next
  \<open>releaseBrowser\<close> of it.\<close>

fun borrow_step :: "handle set \<Rightarrow> event \<Rightarrow> handle set" where
  "borrow_step B (GetBrowser r) = (case r of Inr b \<Rightarrow> insert b B | Inl e \<Rightarrow> B)"
| "borrow_step B (ReleaseBrowser ob) = (case ob of Some b \<Rightarrow> B - {b} | None \<Rightarrow> B)"
| "borrow_step B _ = B"

definition borrowed :: "event list \<Rightarrow> handle set" where
  "borrowed tr = foldl borrow_step {} tr"

text \<open>Every pass of the retry loop begins with the connectivity check, so the passes of a run
  are its \<open>IsConnected\<close> events.\<close>

fun is_attempt :: "event \<Rightarrow> bool" where
  "is_attempt (IsConnected b c) = True"
| "is_attempt _ = False"

fun is_newContext :: "event \<Rightarrow> bool" where
  "is_newContext (NewContext b r) = True"
| "is_newContext _ = False"

text \<open>The error of a failed call of the context-creation sequence; \<open>failed\<close> counts a failed
  navigation as well.\<close>

fun failure :: "event \<Rightarrow> js_error option" where
  "failure (GetBrowser r) = (case r of Inl e \<Rightarrow> Some e | Inr b \<Rightarrow> None)"
| "failure (AcquireContextLock b r) = (case r of Inl e \<Rightarrow> Some e | Inr l \<Rightarrow> None)"
| "failure (NewContext b r) = (case r of Inl e \<Rightarrow> Some e | Inr c \<Rightarrow> None)"
| "failure (NewPage c r) = (case r of Inl e \<Rightarrow> Some e | Inr p \<Rightarrow> None)"
| "failure _ = None"

fun failed :: "event \<Rightarrow> bool" where
  "failed (Navigate p u r) = (r \<noteq> None)"
| "failed ev = (failure ev \<noteq> None)"

text \<open>A successful creation of a page.\<close>

fun created_page :: "event \<Rightarrow> bool" where
  "created_page (NewPage c r) = (case r of Inr p \<Rightarrow> True | Inl e \<Rightarrow> False)"
| "created_page _ = False"

text \<open>The number of passes and of context creations in a trace.\<close>

definition attempts :: "event list \<Rightarrow> nat" where
  "attempts tr = length (filter is_attempt tr)"

definition creations :: "event list \<Rightarrow> nat" where
  "creations tr = length (filter is_newContext tr)"

text \<open>Every failed call of the trace has a retryable error.\<close>

definition all_retryable :: "event list \<Rightarrow> bool" where
  "all_retryable tr = list_all (\<lambda>x. case failure x of Some e \<Rightarrow> retryable e | None \<Rightarrow> True) tr"

text \<open>A failed call that is followed by a further pass has a retryable error.\<close>

fun policy_ok :: "event list \<Rightarrow> bool" where
  "policy_ok [] = True"
| "policy_ok (x # post) =
     ((case failure x of
         Some e \<Rightarrow> list_ex is_attempt post \<longrightarrow> retryable e
       | None \<Rightarrow> True) \<and> policy_ok post)"

text \<open>Every pass but the first is directly preceded by the delay of 100 milliseconds. The two
  flags say whether a pass has been seen and whether the previous event is that delay.\<close>

fun backoff_ok :: "bool \<Rightarrow> bool \<Rightarrow> event list \<Rightarrow> bool" where
  "backoff_ok seen slept [] = True"
| "backoff_ok seen slept (ev # rest) =
     (if is_attempt ev then (\<not> seen \<or> slept) \<and> backoff_ok True False rest
      else backoff_ok seen (ev = Sleep 100) rest)"

text \<open>Readers of single events.\<close>

fun check_of :: "event \<Rightarrow> (handle \<times> bool) option" where
  "check_of (IsConnected b c) = Some (b, c)"
| "check_of _ = None"

fun acquired_for :: "event \<Rightarrow> handle option" where
  "acquired_for (AcquireContextLock ob r) = (case r of Inr l \<Rightarrow> ob | Inl e \<Rightarrow> None)"
| "acquired_for _ = None"

fun got_browser :: "event \<Rightarrow> handle option" where
  "got_browser (GetBrowser r) = (case r of Inr b \<Rightarrow> Some b | Inl e \<Rightarrow> None)"
| "got_browser _ = None"

fun released_browser :: "event \<Rightarrow> handle option" where
  "released_browser (ReleaseBrowser ob) = ob"
| "released_browser _ = None"

fun is_release_lock :: "event \<Rightarrow> bool" where
  "is_release_lock (ReleaseLock l) = True"
| "is_release_lock _ = False"

text \<open>The events before a context creation on handle \<open>b\<close>, latest first: either the successful
  connectivity check of \<open>b\<close>, or the failed check of a handle followed by the release of the
  lock, the return of that handle, the acquisition of \<open>b\<close> and of its lock.\<close>

definition checked_rev :: "event list \<Rightarrow> handle \<Rightarrow> bool" where
  "checked_rev before b =
     (case before of
        [] \<Rightarrow> False
      | e1 # r1 \<Rightarrow>
          check_of e1 = Some (b, True) \<or>
          (case r1 of
             e2 # e3 # e4 # e5 # r5 \<Rightarrow>
               acquired_for e1 = Some b \<and> got_browser e2 = Some b \<and> is_release_lock e4 \<and>
               (case released_browser e3 of
                  Some b0 \<Rightarrow> check_of e5 = Some (b0, False)
                | None \<Rightarrow> False)
           | _ \<Rightarrow> False))"

text \<open>Every context creation of a trace (given latest first) is preceded in that way.\<close>

fun guarded_rev :: "event list \<Rightarrow> bool" where
  "guarded_rev [] = True"
| "guarded_rev (ev # before) =
     ((case ev of NewContext b r \<Rightarrow> checked_rev before b | _ \<Rightarrow> True) \<and> guarded_rev before)"

text \<open>Events that are neither passes nor context creations; failed calls with a given error.\<close>

definition quiet :: "event list \<Rightarrow> bool" where
  "quiet evs = (\<not> list_ex is_attempt evs \<and> \<not> list_ex is_newContext evs)"

definition fails_only :: "js_error option \<Rightarrow> event list \<Rightarrow> bool" where
  "fails_only r evs = list_all (\<lambda>x. failure x = None \<or> failure x = r) evs"

text \<open>Invariants of the variables: the only lock that may be held is the one in \<open>releaseLock\<close>,
  the only handle that may be borrowed is the one in \<open>browser\<close>, and a page in \<open>page\<close> was
  created by a call of the trace.\<close>

definition lock_inv :: "vars \<Rightarrow> bool" where
  "lock_inv v = (held_locks (trace v) \<subseteq> set_option (releaseLock v))"

definition browser_inv :: "vars \<Rightarrow> bool" where
  "browser_inv v = (borrowed (trace v) \<subseteq> set_option (browser v))"

definition page_inv :: "vars \<Rightarrow> bool" where
  "page_inv v = (page v \<noteq> None \<longrightarrow> list_ex created_page (trace v))"

definition res_inv :: "vars \<Rightarrow> bool" where
  "res_inv v = (lock_inv v \<and> browser_inv v \<and> page_inv v)"

text \<open>The invariant of the retry loop with \<open>n\<close> passes left of a budget, and what holds of
  the trace when the sequence ends with result \<open>r\<close>.\<close>

definition loop_inv :: "nat \<Rightarrow> nat \<Rightarrow> event list \<Rightarrow> bool" where
  "loop_inv budget n tr =
     (policy_ok tr \<and> all_retryable tr \<and> backoff_ok False False tr \<and> attempts tr + n \<le> budget \<and>
      creations tr \<le> attempts tr \<and> (attempts tr = 0 \<or> (tr \<noteq> [] \<and> last tr = Sleep 100)))"

definition loop_post :: "nat \<Rightarrow> js_error option \<Rightarrow> event list \<Rightarrow> bool" where
  "loop_post budget r tr =
     (policy_ok tr \<and> backoff_ok False False tr \<and> attempts tr \<le> budget \<and>
      creations tr \<le> attempts tr \<and> (r = None \<longrightarrow> all_retryable tr))"

text \<open>Inside the loop a handle and a lock are present and every context creation so far was
  preceded by its check.\<close>

definition conn_inv :: "vars \<Rightarrow> bool" where
  "conn_inv v = (guarded_rev (rev (trace v)) \<and> browser v \<noteq> None \<and> releaseLock v \<noteq> None)"

section \<open>Example environments and requests\<close>

text \<open>Environments and requests used as examples.\<close>

definition closed_error :: js_error where
  "closed_error = JsError ''Error'' ''browser.newContext: Target page, context or browser has been closed''"

definition world_ok :: world where
  "world_ok = \<lparr>getBrowser_result = (\<lambda>t. Inr t), acquireContextLock_result = (\<lambda>t. None),
     isConnected_result = (\<lambda>t. True), newContext_result = (\<lambda>t. Inr t), newPage_result = (\<lambda>t. Inr t),
     navigation_result = (\<lambda>t. None), isClosed_result = (\<lambda>t. False),
     buildUrl_result = Inr ''https://cal.example.com/book?PersonEmail=a%40b.co'',
     admission_result = None, timeout_result = None, existingInstance_result = None,
     booking_result = None, date_now = 1700000000000\<rparr>"

definition world_closed :: world where
  "world_closed = world_ok\<lparr>newContext_result := (\<lambda>t. Inl closed_error)\<rparr>"

definition world_disconnected :: world where
  "world_disconnected = world_ok\<lparr>isConnected_result := (\<lambda>t. t \<noteq> 2)\<rparr>"

definition world_nav_timeout :: world where
  "world_nav_timeout = world_ok\<lparr>navigation_result :=
     (\<lambda>t. Some (JsError ''TimeoutError'' ''page.waitForSelector: Timeout 5000ms exceeded.''))\<rparr>"

definition world_boom :: world where
  "world_boom = world_ok\<lparr>newPage_result := (\<lambda>t. Inl (JsError ''Error'' ''browserContext.newPage: Protocol error''))\<rparr>"

definition trace_closed :: "event list" where
  "trace_closed =
     [GetBrowser (Inr 0), AcquireContextLock (Some 0) (Inr 1), IsConnected 0 True,
      NewContext 0 (Inl closed_error), ReleaseLock 1, ReleaseBrowser (Some 0), GetBrowser (Inr 6),
      AcquireContextLock (Some 6) (Inr 7), Sleep 100, IsConnected 6 True,
      NewContext 6 (Inl closed_error), ReleaseLock 7, ReleaseBrowser (Some 6), GetBrowser (Inr 13),
      AcquireContextLock (Some 13) (Inr 14), Sleep 100, IsConnected 13 True,
      NewContext 13 (Inl closed_error), ReleaseLock 14, ReleaseBrowser (Some 13), ReleaseLock 14,
      ReleaseBrowser (Some 13)]"

definition trace_nav_timeout :: "event list" where
  "trace_nav_timeout =
     [GetBrowser (Inr 0), AcquireContextLock (Some 0) (Inr 1), IsConnected 0 True,
      NewContext 0 (Inr 3), NewPage 3 (Inr 4), ReleaseLock 1,
      Navigate 4 ''https://cal.example.com/book?PersonEmail=a%40b.co''
        (Some (JsError ''TimeoutError'' ''page.waitForSelector: Timeout 5000ms exceeded.'')),
      PageIsClosed 4 False, PageClose 4, ContextClose 3, ReleaseBrowser (Some 0)]"

definition trace_boom :: "event list" where
  "trace_boom =
     [GetBrowser (Inr 0), AcquireContextLock (Some 0) (Inr 1), IsConnected 0 True, NewContext 0 (Inr 3),
      NewPage 3 (Inl (JsError ''Error'' ''browserContext.newPage: Protocol error'')), ReleaseLock 1,
      ReleaseBrowser (Some 0), ReleaseLock 1, ContextClose 3, ReleaseBrowser (Some 0)]"

definition trace_disconnected :: "event list" where
  "trace_disconnected =
     [GetBrowser (Inr 0), AcquireContextLock (Some 0) (Inr 1), IsConnected 0 False, ReleaseLock 1,
      ReleaseBrowser (Some 0), GetBrowser (Inr 5), AcquireContextLock (Some 5) (Inr 6),
      NewContext 5 (Inr 7), NewPage 7 (Inr 8), ReleaseLock 6,
      Navigate 8 ''https://cal.example.com/book?PersonEmail=a%40b.co'' None]"

definition req_test :: book_request where
  "req_test = \<lparr>allowed = True, body_email = ''QA.Tester@example.com'', body_firstName = ''Ada'',
     body_lastName = ''Lovelace'', body_phone = [], body_custom_params = None,
     body_dateTime = ''November 13, 2025 at 1:25 PM'',
     body_chili_piper_url = ''https://cal.example.com/book'', body_timezone = []\<rparr>"

definition req_plain :: book_request where
  "req_plain = \<lparr>allowed = True, body_email = ''a@b.co'', body_firstName = ''A'', body_lastName = ''B'',
     body_phone = [], body_custom_params = None, body_dateTime = ''November 13, 2025 at 1:25 PM'',
     body_chili_piper_url = ''https://cal.example.com/book'', body_timezone = []\<rparr>"

definition world_three_slots :: slots_world where
  "world_three_slots = \<lparr>gs_admission_result = None,
     gs_scrape_result = Inr \<lparr>success = True, data = Some \<lparr>slots = Some [(''2026-01-22'', ''9:00 AM''), (''2026-01-22'', ''9:30 AM''), (''2026-01-23'', ''1:00 PM'')],
        total_slots = 3, total_days = 2, data_timezone = None\<rparr>\<rparr>,
     gs_timeout_result = None\<rparr>"

definition req_two_slots :: slots_request where
  "req_two_slots = \<lparr>gs_allowed = True, gs_max_days = Str ''3'', gs_max_slots_per_day = Str ''5'', gs_max_slots = Str ''2'',
     gs_timezone = ''America/New_York'', gs_start_date = [], gs_end_date = []\<rparr>"

section \<open>Properties of the time utilities\<close>

lemma lt10_cases: "(k::nat) < 10 \<Longrightarrow> k \<in> {0, 1, 2, 3, 4, 5, 6, 7, 8, 9}"
  by auto

lemma dc: "k < 10 \<Longrightarrow> is_digit (digit_char k) \<and> digit_val (digit_char k) = k \<and> \<not> is_space (digit_char k)"
  using lt10_cases [of k] by (auto simp add: is_digit_def digit_char_def digit_val_def is_space_def)

lemma string_of_nat_1: "n < 10 \<Longrightarrow> string_of_nat n = [digit_char n]"
  by (simp add: string_of_nat.simps)

lemma string_of_nat_2: "10 \<le> n \<Longrightarrow> n < 100 \<Longrightarrow> string_of_nat n = [digit_char (n div 10), digit_char (n mod 10)]"
  by (subst string_of_nat.simps) (simp add: string_of_nat_1)

lemma parseInt_1: "is_digit a \<Longrightarrow> \<not> is_space a \<Longrightarrow> parseInt [a] = Some (int (digit_val a))"
  by (auto simp add: parseInt_def digits_value_def is_digit_def)

lemma parseInt_2: "is_digit a \<Longrightarrow> is_digit b \<Longrightarrow> \<not> is_space a \<Longrightarrow> parseInt [a, b] = Some (int (10 * digit_val a + digit_val b))"
  by (auto simp add: parseInt_def digits_value_def is_digit_def)

lemma fmt_1: "1 \<le> d \<Longrightarrow> d \<le> 9 \<Longrightarrow> string_of_int d = [digit_char (nat d)]"
  by (simp add: string_of_int_def string_of_nat_1)

lemma pad_min: "0 \<le> m \<Longrightarrow> m \<le> 59 \<Longrightarrow> padStart 2 (CHR ''0'') (string_of_int m) = [digit_char (nat m div 10), digit_char (nat m mod 10)]"
  apply (cases "m < 10")
   apply (simp add: padStart_def string_of_int_def string_of_nat_1 digit_char_def)
  apply (simp add: padStart_def string_of_int_def string_of_nat_2)
  done

lemma is_digit_simps: "\<not> is_digit CHR '':''" "\<not> is_digit CHR '' ''" "is_space CHR '' ''" "\<not> is_space CHR ''A''" "\<not> is_space CHR ''P''"
  by (simp_all add: is_digit_def is_space_def)

lemma upper_ampm: "toUpperCase ''AM'' = ''AM''" "toUpperCase ''PM'' = ''PM''"
  by (simp_all add: toUpperCase_def toUpperCase_char_def)

lemma digit_val_lt: "is_digit a \<Longrightarrow> digit_val a < 10"
  by (auto simp add: is_digit_def digit_val_def)

lemma parse_shape_1:
  assumes "is_digit a" "is_digit b" "is_digit c" "\<not> is_space a" "\<not> is_space b"
  shows "parseTime (a # CHR '':'' # b # c # '' AM'') =
           Some \<lparr>hour = int (digit_val a), minute = 10 * int (digit_val b) + int (digit_val c)\<rparr>"
    and "parseTime (a # CHR '':'' # b # c # '' PM'') =
           Some \<lparr>hour = int (digit_val a) + 12, minute = 10 * int (digit_val b) + int (digit_val c)\<rparr>"
  using assms digit_val_lt [of a]
  by (simp_all add: parseTime_def match12h_def parseInt_1 parseInt_2 Let_def is_digit_simps upper_ampm)

lemma parse_shape_2:
  assumes "is_digit a" "is_digit a'" "is_digit b" "is_digit c" "\<not> is_space a" "\<not> is_space b"
  shows "parseTime (a # a' # CHR '':'' # b # c # '' AM'') =
           Some \<lparr>hour = (let h = 10 * int (digit_val a) + int (digit_val a') in if h = 12 then 0 else h),
                  minute = 10 * int (digit_val b) + int (digit_val c)\<rparr>"
    and "parseTime (a # a' # CHR '':'' # b # c # '' PM'') =
           Some \<lparr>hour = (let h = 10 * int (digit_val a) + int (digit_val a') in if h = 12 then 12 else h + 12),
                  minute = 10 * int (digit_val b) + int (digit_val c)\<rparr>"
  using assms
  by (simp_all add: parseTime_def match12h_def parseInt_1 parseInt_2 Let_def is_digit_simps upper_ampm)

text \<open>Claim C10. For every hour \<open>h\<close> in 0..23 and minute \<open>m\<close> in 0..59,
  \<open>parseTime (formatTime12h h m)\<close> succeeds and returns exactly the hour \<open>h\<close> and the
  minute \<open>m\<close>: formatting to the 12-hour form and parsing again is the identity on valid
  24-hour times.\<close>

theorem parseTime_formatTime12h:
  assumes "0 \<le> h" "h \<le> 23" "0 \<le> m" "m \<le> 59"
  shows "parseTime (formatTime12h h m) = Some \<lparr>hour = h, minute = m\<rparr>"
proof -
  let ?b = "digit_char (nat m div 10)" and ?c = "digit_char (nat m mod 10)"
  have b: "is_digit ?b" "\<not> is_space ?b" "digit_val ?b = nat m div 10"
    using assms dc [of "nat m div 10"] by auto
  have c: "is_digit ?c" "digit_val ?c = nat m mod 10"
    using dc [of "nat m mod 10"] by auto
  have e: "10 * (nat m div 10) + nat m mod 10 = nat m"
    by simp
  have "10 * int (nat m div 10) + int (nat m mod 10) = int (10 * (nat m div 10) + nat m mod 10)"
    by (simp only: of_nat_add of_nat_mult of_nat_numeral)
  also have "\<dots> = int (nat m)"
    by (simp only: e)
  also have "\<dots> = m"
    using assms by simp
  finally have mm: "10 * int (digit_val ?b) + int (digit_val ?c) = m"
    by (simp only: b c)
  have pad: "padStart 2 (CHR ''0'') (string_of_int m) = [?b, ?c]"
    using assms by (rule_tac pad_min)
  have one: "is_digit CHR ''1''" "\<not> is_space CHR ''1''"
    by (simp_all add: is_digit_def is_space_def)
  have one_val: "digit_val CHR ''1'' = 1"
    by (simp add: digit_val_def)
  have two: "is_digit CHR ''2''" "digit_val CHR ''2'' = 2"
    by (simp_all add: is_digit_def digit_val_def)
  consider "h = 0 \<or> h = 12" | "1 \<le> h \<and> h \<le> 9" | "h = 10 \<or> h = 11"
    | "13 \<le> h \<and> h \<le> 21" | "h = 22 \<or> h = 23"
    using assms by linarith
  then show ?thesis
  proof cases
    case 1
    have f: "formatTime12h h m = CHR ''1'' # CHR ''2'' # CHR '':'' # ?b # ?c # (if h = 0 then '' AM'' else '' PM'')"
      using 1 pad by (auto simp add: formatTime12h_def string_of_int_def string_of_nat.simps digit_char_def)
    have v: "10 * int (digit_val CHR ''1'') + int (digit_val CHR ''2'') = 12"
      by (simp add: one_val two)
    show ?thesis
    proof (cases "h = 0")
      case True
      then show ?thesis
        unfolding f using parse_shape_2(1) [OF one(1) two(1) b(1) c(1) one(2) b(2)]
        by (simp add: v mm)
    next
      case False
      then have "h = 12" using 1 by simp
      then show ?thesis
        unfolding f using parse_shape_2(2) [OF one(1) two(1) b(1) c(1) one(2) b(2)]
        by (simp add: v mm)
    qed
  next
    case 2
    let ?a = "digit_char (nat h)"
    have lt: "nat h < 10" using 2 by linarith
    have a: "is_digit ?a" "\<not> is_space ?a" "digit_val ?a = nat h"
      using lt dc [of "nat h"] by auto
    have f: "formatTime12h h m = ?a # CHR '':'' # ?b # ?c # '' AM''"
      using 2 pad by (simp add: formatTime12h_def fmt_1)
    have v: "int (digit_val ?a) = h" using 2 a(3) by simp
    show ?thesis
      unfolding f using parse_shape_1(1) [OF a(1) b(1) c(1) a(2) b(2)]
      by (simp add: v mm)
  next
    case 3
    let ?a = "digit_char (nat h mod 10)"
    have a: "is_digit ?a" "digit_val ?a = nat h mod 10" using dc [of "nat h mod 10"] by auto
    have "10 \<le> nat h" "nat h < 100" "nat h div 10 = 1" using 3 by auto
    then have "string_of_int h = [CHR ''1'', ?a]"
      using 3 by (simp add: string_of_int_def string_of_nat_2 digit_char_def)
    then have f: "formatTime12h h m = CHR ''1'' # ?a # CHR '':'' # ?b # ?c # '' AM''"
      using 3 pad by (auto simp add: formatTime12h_def)
    have v: "10 * int (digit_val CHR ''1'') + int (digit_val ?a) = h"
      using 3 a(2) one_val by auto
    have ne: "h \<noteq> 12" using 3 by auto
    show ?thesis
      unfolding f using parse_shape_2(1) [OF one(1) a(1) b(1) c(1) one(2) b(2)]
      by (simp add: v mm ne)
  next
    case 4
    let ?a = "digit_char (nat (h - 12))"
    have lt: "nat (h - 12) < 10" using 4 by linarith
    have a: "is_digit ?a" "\<not> is_space ?a" "digit_val ?a = nat (h - 12)"
      using lt dc [of "nat (h - 12)"] by auto
    have f: "formatTime12h h m = ?a # CHR '':'' # ?b # ?c # '' PM''"
      using 4 pad by (simp add: formatTime12h_def fmt_1)
    have v: "int (digit_val ?a) + 12 = h" using 4 a(3) by simp
    show ?thesis
      unfolding f using parse_shape_1(2) [OF a(1) b(1) c(1) a(2) b(2)]
      by (simp add: v mm)
  next
    case 5
    let ?a = "digit_char (nat (h - 12) mod 10)"
    have a: "is_digit ?a" "digit_val ?a = nat (h - 12) mod 10"
      using dc [of "nat (h - 12) mod 10"] by auto
    have "10 \<le> nat (h - 12)" "nat (h - 12) < 100" "nat (h - 12) div 10 = 1" using 5 by auto
    then have "string_of_int (h - 12) = [CHR ''1'', ?a]"
      using 5 by (simp add: string_of_int_def string_of_nat_2 digit_char_def)
    then have f: "formatTime12h h m = CHR ''1'' # ?a # CHR '':'' # ?b # ?c # '' PM''"
      using 5 pad by (auto simp add: formatTime12h_def)
    have v: "10 * int (digit_val CHR ''1'') + int (digit_val ?a) = h - 12"
      using 5 a(2) one_val by auto
    have ne: "h - 12 \<noteq> 12" using 5 by auto
    show ?thesis
      unfolding f using parse_shape_2(2) [OF one(1) a(1) b(1) c(1) one(2) b(2)]
      by (simp add: v mm ne)
  qed
qed

text \<open>Claim C10 at 13:05, which is formatted as \<open>1:05 PM\<close>.\<close>

theorem parseTime_formatTime12h_witness:
  "(0::int) \<le> 13 \<and> (13::int) \<le> 23 \<and> (0::int) \<le> 5 \<and> (5::int) \<le> 59 \<and> formatTime12h 13 5 = ''1:05 PM'' \<and>
   parseTime ''1:05 PM'' = Some \<lparr>hour = 13, minute = 5\<rparr>"
proof -
  have f: "formatTime12h 13 5 = ''1:05 PM''" by code_simp
  show ?thesis using parseTime_formatTime12h [of 13 5] f by simp
qed

section \<open>Admission by the Concurrency Manager\<close>

lemma submit_all_append:
  "submit_all m (xs @ ys) =
     (case submit_all m xs of (as, m1) \<Rightarrow> (case submit_all m1 ys of (bs, m2) \<Rightarrow> (as @ bs, m2)))"
  by (induction xs arbitrary: m) (auto split: prod.splits)

lemma submit_all_started:
  "length (running m) + length ws \<le> capacity m \<Longrightarrow>
   submit_all m ws = (replicate (length ws) Started, m\<lparr>running := running m @ ws\<rparr>)"
  by (induction ws arbitrary: m) (auto simp add: execute_def)

lemma submit_all_enqueued:
  "capacity m \<le> length (running m) \<Longrightarrow> length (queue m) + length ws \<le> maxQueueSize m \<Longrightarrow>
   submit_all m ws = (replicate (length ws) Enqueued, m\<lparr>queue := queue m @ ws\<rparr>)"
  by (induction ws arbitrary: m) (auto simp add: execute_def)

lemma submit_all_rejected:
  "capacity m \<le> length (running m) \<Longrightarrow> maxQueueSize m \<le> length (queue m) \<Longrightarrow>
   submit_all m ws = (replicate (length ws) (Rejected QueueFullError), m)"
  by (induction ws arbitrary: m) (auto simp add: execute_def)

text \<open>Claim C1, against the manager modelled from the spec. For every capacity \<open>c\<close> and queue
  size \<open>q\<close>, when more than \<open>c + q\<close> tasks are submitted back to back, exactly the first
  \<open>c\<close> are started at once, the next \<open>q\<close> are queued in submission order, and every
  later one is rejected at submission with \<open>QueueFullError\<close>. Every submission has one of
  these three outcomes, so none blocks and none is dropped silently.\<close>

theorem admission_beyond_capacity_and_queue:
  assumes "length works > c + q"
  shows "submit_all (new_manager c q) works =
           (replicate c Started @ replicate q Enqueued @
              replicate (length works - (c + q)) (Rejected QueueFullError),
            \<lparr>capacity = c, maxQueueSize = q, running = take c works, queue = take q (drop c works)\<rparr>)"
proof -
  let ?a = "take c works" and ?b = "take q (drop c works)" and ?r = "drop (c + q) works"
  have split: "works = ?a @ ?b @ ?r"
    by (metis append_take_drop_id drop_drop add.commute)
  have la: "length ?a = c" and lb: "length ?b = q" and lr: "length ?r = length works - (c + q)"
    using assms by auto
  let ?m1 = "(new_manager c q)\<lparr>running := ?a\<rparr>"
  let ?m2 = "?m1\<lparr>queue := ?b\<rparr>"
  have s1: "submit_all (new_manager c q) ?a = (replicate c Started, ?m1)"
    using submit_all_started [of "new_manager c q" ?a] la by (simp add: new_manager_def)
  have s2: "submit_all ?m1 ?b = (replicate q Enqueued, ?m2)"
    using submit_all_enqueued [of ?m1 ?b] la lb by (simp add: new_manager_def)
  have s3: "submit_all ?m2 ?r = (replicate (length works - (c + q)) (Rejected QueueFullError), ?m2)"
    using submit_all_rejected [of ?m2 ?r] la lb lr by (simp add: new_manager_def)
  have "submit_all (new_manager c q) (?a @ ?b @ ?r) =
          (replicate c Started @ replicate q Enqueued @
              replicate (length works - (c + q)) (Rejected QueueFullError), ?m2)"
    by (simp only: submit_all_append s1 s2 s3 prod.case)
  then show ?thesis using split by (simp add: new_manager_def)
qed

text \<open>Claim C1 in the scenario of the spec: capacity 2, queue size 1, four tasks.\<close>

theorem admission_beyond_capacity_and_queue_witness:
  "length [1::nat, 2, 3, 4] > 2 + 1 \<and>
   submit_all (new_manager 2 1) [1::nat, 2, 3, 4] =
     ([Started, Started, Enqueued, Rejected QueueFullError],
      \<lparr>capacity = 2, maxQueueSize = 1, running = [1, 2], queue = [3]\<rparr>)"
  using admission_beyond_capacity_and_queue [of 2 1 "[1::nat, 2, 3, 4]"]
  by (simp add: numeral_2_eq_2)

section \<open>Steps and traces\<close>

lemma log_simps [simp]:
  "trace (log e v) = trace v @ [e]" "browser (log e v) = browser v" "ctx (log e v) = ctx v"
  "page (log e v) = page v" "releaseLock (log e v) = releaseLock v"
  by (simp_all add: log_def)

lemma and_then_simps [simp]:
  "and_then (Some e, v) f = (Some e, v)" "and_then (None, v) f = f v"
  by (simp_all add: and_then_def)

lemma and_then_eq:
  "and_then r f = (x, v') \<longleftrightarrow>
     (\<exists>e. r = (Some e, v') \<and> x = Some e) \<or> (\<exists>v1. r = (None, v1) \<and> f v1 = (x, v'))"
  by (cases r; cases "fst r") (auto simp add: and_then_def)

lemma held_locks_append [simp]: "held_locks (tr @ es) = foldl lock_step (held_locks tr) es"
  by (simp add: held_locks_def)

lemma held_locks_Nil [simp]: "held_locks [] = {}"
  by (simp add: held_locks_def)

lemma borrowed_append [simp]: "borrowed (tr @ es) = foldl borrow_step (borrowed tr) es"
  by (simp add: borrowed_def)

lemma borrowed_Nil [simp]: "borrowed [] = {}"
  by (simp add: borrowed_def)

lemma foldl_lock_step_keeps:
  "l \<in> H \<Longrightarrow> ReleaseLock l \<notin> set post \<Longrightarrow> l \<in> foldl lock_step H post"
proof (induction post arbitrary: H)
  case Nil
  then show ?case by simp
next
  case (Cons ev post)
  have "l \<in> lock_step H ev"
    using Cons.prems by (cases "(H, ev)" rule: lock_step.cases) (auto split: sum.splits)
  then show ?case using Cons by simp
qed

lemma held_locks_empty_released:
  assumes "held_locks tr = {}" and "tr = pre @ AcquireContextLock b (Inr l) # post"
  shows "ReleaseLock l \<in> set post"
proof (rule ccontr)
  assume "ReleaseLock l \<notin> set post"
  then have "l \<in> foldl lock_step (insert l (held_locks pre)) post"
    by (intro foldl_lock_step_keeps) simp_all
  then have "l \<in> held_locks tr"
    using assms(2) by (simp add: held_locks_def)
  then show False using assms(1) by simp
qed

lemma foldl_borrow_step_keeps:
  "b \<in> B \<Longrightarrow> ReleaseBrowser (Some b) \<notin> set post \<Longrightarrow> b \<in> foldl borrow_step B post"
proof (induction post arbitrary: B)
  case Nil
  then show ?case by simp
next
  case (Cons ev post)
  have "b \<in> borrow_step B ev"
    using Cons.prems by (cases "(B, ev)" rule: borrow_step.cases) (auto split: sum.splits option.splits)
  then show ?case using Cons by simp
qed

lemma borrowed_empty_released:
  assumes "borrowed tr = {}" and "tr = pre @ GetBrowser (Inr b) # post"
  shows "ReleaseBrowser (Some b) \<in> set post"
proof (rule ccontr)
  assume "ReleaseBrowser (Some b) \<notin> set post"
  then have "b \<in> foldl borrow_step (insert b (borrowed pre)) post"
    by (intro foldl_borrow_step_keeps) simp_all
  then have "b \<in> borrowed tr"
    using assms(2) by (simp add: borrowed_def)
  then show False using assms(1) by simp
qed

lemma created_page_explicit:
  "list_ex created_page tr \<Longrightarrow> \<exists>c p. NewPage c (Inr p) \<in> set tr"
proof (induction tr)
  case Nil
  then show ?case by simp
next
  case (Cons ev tr)
  show ?case
  proof (cases "created_page ev")
    case True
    then obtain c p where "ev = NewPage c (Inr p)"
      by (cases ev) (auto split: sum.splits)
    then show ?thesis by auto
  next
    case False
    then show ?thesis using Cons by auto
  qed
qed

section \<open>Example runs\<close>

lemma run_closed:
  "createInstanceForEmail world_closed ''https://cal.example.com/book'' (buildUrl_result world_closed) =
     (None, trace_closed)"
  by code_simp

lemma run_nav_timeout:
  "createInstanceForEmail world_nav_timeout ''https://cal.example.com/book'' (buildUrl_result world_nav_timeout) =
     (None, trace_nav_timeout)"
  by code_simp

lemma run_boom:
  "createInstanceForEmail world_boom ''https://cal.example.com/book'' (buildUrl_result world_boom) =
     (None, trace_boom)"
  by code_simp

lemma run_disconnected:
  "createInstanceForEmail world_disconnected ''https://cal.example.com/book'' (buildUrl_result world_disconnected) =
     (Some \<lparr>inst_browser = Some 5, inst_context = Some 7, inst_page = Some 8\<rparr>, trace_disconnected)"
  by code_simp

lemma run_no_email:
  "book_slot_POST world_ok (req_plain\<lparr>body_email := []\<rparr>) =
   (BookingSuccess
     \<lparr>resp_message = ''Slot booked successfully'', resp_date = ''2025-11-13'',
        resp_time = ''1:25 PM'', testMode = False\<rparr>,
    [Execute None, GetBrowser (Inr 0), AcquireContextLock (Some 0) (Inr 1),
     IsConnected 0 True, NewContext 0 (Inr 3), NewPage 3 (Inr 4),
     ReleaseLock 1,
     Navigate 4 ''https://cal.example.com/book?PersonEmail=a%40b.co'' None,
     RegisterInstance []
      \<lparr>inst_browser = Some 0, inst_context = Some 3, inst_page = Some 4\<rparr>,
     DriveBooking (Some 4) None, CleanupInstance []])"
  by code_simp

lemma run_slots:
  "get_slots_POST world_three_slots req_two_slots =
     (SlotsSuccess (Some \<lparr>slots = Some [(''2026-01-22'', ''9:00 AM''), (''2026-01-22'', ''9:30 AM'')],
        total_slots = 2, total_days = 2, data_timezone = Some ''America/New_York''\<rparr>),
      [Execute None, ScrapeSlots])"
  by code_simp

lemma req_test_facts:
  "allowed req_test"
  "str_includes (toLowerCase (effective_email req_test)) ''test''"
  "parseDateTime (body_dateTime req_test) = Some (''2025-11-13'', ''1:25 PM'')"
  by code_simp+

section \<open>Locks and handles are given back\<close>

lemma res_inv_log:
  "res_inv v \<Longrightarrow> lock_step (held_locks (trace v)) e = held_locks (trace v) \<Longrightarrow>
   borrow_step (borrowed (trace v)) e = borrowed (trace v) \<Longrightarrow> res_inv (log e v)"
  by (simp add: res_inv_def lock_inv_def browser_inv_def page_inv_def)

lemma inv_replace_browser:
  assumes "replace_browser w v = (r, v')" and "res_inv v"
  shows "res_inv v'"
  using assms
  by (auto simp add: res_inv_def lock_inv_def browser_inv_def page_inv_def replace_browser_def getBrowser_def
      acquireContextLock_def releaseBrowser_def release_lock_if_set_def and_then_eq
      split: sum.splits option.splits if_splits dest: subsetD)

lemma inv_create_context_and_page:
  assumes "create_context_and_page w v = (r, v')" and "res_inv v"
  shows "res_inv v'"
  using assms
  by (auto simp add: res_inv_def lock_inv_def browser_inv_def page_inv_def create_context_and_page_def
      newContext_def newPage_def and_then_eq split: sum.splits option.splits if_splits)

lemma inv_attempt:
  assumes "attempt w v = (r, v')" and "res_inv v"
  shows "res_inv v'"
proof (cases "browser v")
  case None
  then show ?thesis using assms by (simp add: attempt_def)
next
  case (Some b)
  let ?c = "isConnected_result w (now v)"
  let ?v1 = "log (IsConnected b ?c) v"
  have i1: "res_inv ?v1" using assms(2) by (simp add: res_inv_log)
  show ?thesis
  proof (cases ?c)
    case True
    then have "create_context_and_page w ?v1 = (r, v')"
      using assms(1) Some by (simp add: attempt_def Let_def)
    then show ?thesis using i1 by (rule inv_create_context_and_page)
  next
    case False
    then have "and_then (replace_browser w ?v1) (create_context_and_page w) = (r, v')"
      using assms(1) Some by (simp add: attempt_def Let_def)
    then consider e where "replace_browser w ?v1 = (Some e, v')"
      | v2 where "replace_browser w ?v1 = (None, v2)" "create_context_and_page w v2 = (r, v')"
      by (auto simp add: and_then_eq)
    then show ?thesis
    proof cases
      case 1
      then show ?thesis using i1 by (rule inv_replace_browser)
    next
      case 2
      have "res_inv v2" using 2(1) i1 by (rule inv_replace_browser)
      with 2(2) show ?thesis by (rule inv_create_context_and_page)
    qed
  qed
qed

lemma inv_release:
  "res_inv v \<Longrightarrow> res_inv (releaseBrowser (release_lock_if_set v))"
  by (auto simp add: res_inv_def lock_inv_def browser_inv_def page_inv_def releaseBrowser_def
      release_lock_if_set_def split: option.splits dest: subsetD)

lemma inv_retry_loop:
  "retry_loop w n v = (r, v') \<Longrightarrow> res_inv v \<Longrightarrow> res_inv v'"
proof (induction n arbitrary: v)
  case 0
  then show ?case by simp
next
  case (Suc n)
  obtain r1 v1 where a: "attempt w v = (r1, v1)" by (cases "attempt w v")
  have i1: "res_inv v1" using a Suc.prems(2) by (rule inv_attempt)
  show ?case
  proof (cases r1)
    case None
    then show ?thesis using Suc.prems a i1 by simp
  next
    case (Some e)
    show ?thesis
    proof (cases "retryable e \<and> n > 0")
      case True
      obtain r2 v2 where b: "replace_browser w v1 = (r2, v2)" by (cases "replace_browser w v1")
      have i2: "res_inv v2" using b i1 by (rule inv_replace_browser)
      show ?thesis
      proof (cases r2)
        case None
        have "res_inv (log (Sleep 100) v2)"
          using i2 by (simp add: res_inv_log)
        then show ?thesis using Suc.IH [of "log (Sleep 100) v2"] Suc.prems(1) a Some True b None
          by simp
      next
        case (Some e')
        then show ?thesis using Suc.prems(1) a \<open>r1 = Some e\<close> True b i2 by simp
      qed
    next
      case False
      then show ?thesis using Suc.prems(1) a Some inv_release [OF i1]
        by auto
    qed
  qed
qed

lemma res_inv_initial: "res_inv initial_vars"
  by (simp add: res_inv_def lock_inv_def browser_inv_def page_inv_def initial_vars_def)

lemma inv_getBrowser_fresh:
  assumes "getBrowser w v = (r, v')" and "res_inv v" and "borrowed (trace v) = {}"
  shows "res_inv v'"
  using assms
  by (auto simp add: res_inv_def lock_inv_def browser_inv_def page_inv_def getBrowser_def split: sum.splits)

lemma inv_acquireContextLock_fresh:
  assumes "acquireContextLock w v = (r, v')" and "res_inv v" and "held_locks (trace v) = {}"
  shows "res_inv v'"
  using assms
  by (auto simp add: res_inv_def lock_inv_def browser_inv_def page_inv_def acquireContextLock_def split: option.splits)

lemma getBrowser_held:
  "getBrowser w v = (r, v') \<Longrightarrow> held_locks (trace v') = held_locks (trace v)"
  by (auto simp add: getBrowser_def split: sum.splits)

lemma inv_after_loop:
  assumes "res_inv v3"
  shows "res_inv (case releaseLock v3 of
                    Some l \<Rightarrow> (log (ReleaseLock l) v3)\<lparr>releaseLock := None\<rparr>
                  | None \<Rightarrow> v3)"
  using assms
  by (auto simp add: res_inv_def lock_inv_def browser_inv_def page_inv_def split: option.splits dest: subsetD)

lemma inv_navigate:
  assumes "navigate w targetUrl v = (r, v')" and "res_inv v"
  shows "res_inv v'"
  using assms
  by (auto simp add: navigate_def res_inv_log split: option.splits)

lemma inv_releaseBrowser: "res_inv v \<Longrightarrow> res_inv (releaseBrowser v)"
  by (auto simp add: res_inv_def lock_inv_def browser_inv_def page_inv_def releaseBrowser_def
      split: option.splits dest: subsetD)

lemma inv_create_body:
  assumes "create_body w chiliPiperUrl built initial_vars = (r, v)"
  shows "res_inv v \<and> (r = None \<longrightarrow> releaseLock v = None)"
proof (cases "chiliPiperUrl = []")
  case True
  then show ?thesis using assms res_inv_initial by (auto simp add: create_body_def)
next
  case False
  show ?thesis
  proof (cases built)
    case (Inl e)
    then show ?thesis using assms False res_inv_initial by (auto simp add: create_body_def)
  next
    case (Inr targetUrl)
    let ?after = "\<lambda>v3. (case releaseLock v3 of
                        Some l \<Rightarrow> (log (ReleaseLock l) v3)\<lparr>releaseLock := None\<rparr>
                      | None \<Rightarrow> v3)"
    obtain r1 v1 where g: "getBrowser w initial_vars = (r1, v1)" by (cases "getBrowser w initial_vars")
    have i1: "res_inv v1"
      using g res_inv_initial by (rule inv_getBrowser_fresh) (simp add: initial_vars_def)
    have h1: "held_locks (trace v1) = {}"
      using getBrowser_held [OF g] by (simp add: initial_vars_def)
    show ?thesis
    proof (cases r1)
      case (Some e)
      then show ?thesis using assms False Inr g i1 by (auto simp add: create_body_def)
    next
      case None
      obtain r2 v2 where a: "acquireContextLock w v1 = (r2, v2)" by (cases "acquireContextLock w v1")
      have i2: "res_inv v2" using a i1 h1 by (rule inv_acquireContextLock_fresh)
      show ?thesis
      proof (cases r2)
        case (Some e)
        then show ?thesis using assms False Inr g \<open>r1 = None\<close> a i2 by (auto simp add: create_body_def)
      next
        case None
        obtain r3 v3 where l: "retry_loop w 3 v2 = (r3, v3)" by (cases "retry_loop w 3 v2")
        have i3: "res_inv v3" using l i2 by (rule inv_retry_loop)
        show ?thesis
        proof (cases r3)
          case (Some e)
          then show ?thesis
            using assms False Inr g \<open>r1 = None\<close> a \<open>r2 = None\<close> l i3 by (auto simp add: create_body_def)
        next
          case None
          have i4: "res_inv (?after v3)" using i3 by (rule inv_after_loop)
          have n4: "releaseLock (?after v3) = None" by (simp split: option.splits)
          have "(if page (?after v3) = None
                 then (Some (JsError ''Error'' ''Failed to create browser context after retries''),
                       releaseBrowser (?after v3))
                 else navigate w targetUrl (?after v3)) = (r, v)"
            using assms False Inr g \<open>r1 = None\<close> a \<open>r2 = None\<close> l None
            by (simp add: create_body_def Let_def)
          then show ?thesis
            using i4 n4 inv_releaseBrowser [OF i4] inv_navigate [of w targetUrl "?after v3" r v]
            by (auto simp add: navigate_def split: if_splits option.splits)
        qed
      qed
    qed
  qed
qed

lemma cleanup_releases:
  assumes "res_inv v"
  shows "held_locks (trace (cleanup w v)) = {}" and "borrowed (trace (cleanup w v)) = {}"
  using assms
  by (auto simp add: cleanup_def Let_def res_inv_def lock_inv_def browser_inv_def page_inv_def releaseBrowser_def
      release_lock_if_set_def split: option.splits dest: subsetD)

text \<open>Claim C4. In every run of \<open>createInstanceForEmail\<close>, whatever the environment answers
  and whether the run ends with an instance or with \<open>null\<close>, every release callback obtained
  from \<open>acquireContextLock\<close> is invoked later in the run: every successful acquisition in
  the trace is followed by the release of that lock. No path ends while a context lock is
  held.\<close>

theorem context_locks_released:
  assumes "createInstanceForEmail w chiliPiperUrl built = (result, tr)"
    and "tr = pre @ AcquireContextLock b (Inr l) # post"
  shows "ReleaseLock l \<in> set post"
proof -
  obtain r v where c: "create_body w chiliPiperUrl built initial_vars = (r, v)"
    by (cases "create_body w chiliPiperUrl built initial_vars")
  have i: "res_inv v" and n: "r = None \<longrightarrow> releaseLock v = None"
    using inv_create_body [OF c] by auto
  have "held_locks tr = {}"
  proof (cases r)
    case None
    then have "tr = trace v" using assms(1) c by (simp add: createInstanceForEmail_def)
    then show ?thesis using i n None by (simp add: res_inv_def lock_inv_def)
  next
    case (Some e)
    then have "tr = trace (cleanup w v)" using assms(1) c by (simp add: createInstanceForEmail_def)
    then show ?thesis using cleanup_releases(1) [OF i] by simp
  qed
  then show ?thesis using assms(2) by (rule held_locks_empty_released)
qed

text \<open>Claim C4 in a run whose three attempts all fail: the lock acquired for the second attempt
  is released.\<close>

theorem context_locks_released_witness:
  "createInstanceForEmail world_closed ''https://cal.example.com/book'' (buildUrl_result world_closed) =
     (None, trace_closed) \<and>
   trace_closed = take 7 trace_closed @ AcquireContextLock (Some 6) (Inr 7) # drop 8 trace_closed \<and>
   ReleaseLock 7 \<in> set (drop 8 trace_closed)"
proof -
  have d: "trace_closed = take 7 trace_closed @ AcquireContextLock (Some 6) (Inr 7) # drop 8 trace_closed"
    by (simp add: trace_closed_def)
  show ?thesis using context_locks_released [OF run_closed d] run_closed d by simp
qed

text \<open>Claim C5. In every run of \<open>createInstanceForEmail\<close> that returns \<open>null\<close>, every handle
  obtained from \<open>getBrowser\<close> is passed to \<open>releaseBrowser\<close> later in the run: a failed
  session creation strands no borrowed handle.\<close>

theorem borrowed_handles_released_on_failure:
  assumes "createInstanceForEmail w chiliPiperUrl built = (None, tr)"
    and "tr = pre @ GetBrowser (Inr b) # post"
  shows "ReleaseBrowser (Some b) \<in> set post"
proof -
  obtain r v where c: "create_body w chiliPiperUrl built initial_vars = (r, v)"
    by (cases "create_body w chiliPiperUrl built initial_vars")
  have i: "res_inv v"
    using inv_create_body [OF c] by auto
  have "r \<noteq> None"
    using assms(1) c by (auto simp add: createInstanceForEmail_def split: option.splits)
  then have "tr = trace (cleanup w v)"
    using assms(1) c by (auto simp add: createInstanceForEmail_def split: option.splits)
  then have "borrowed tr = {}"
    using cleanup_releases(2) [OF i] by simp
  then show ?thesis using assms(2) by (rule borrowed_empty_released)
qed

text \<open>Claim C5 in a run whose navigation times out: the handle is returned by the cleanup.\<close>

theorem borrowed_handles_released_on_failure_witness:
  "createInstanceForEmail world_nav_timeout ''https://cal.example.com/book'' (buildUrl_result world_nav_timeout) =
     (None, trace_nav_timeout) \<and>
   trace_nav_timeout = [] @ GetBrowser (Inr 0) # drop 1 trace_nav_timeout \<and>
   ReleaseBrowser (Some 0) \<in> set (drop 1 trace_nav_timeout)"
proof -
  have d: "trace_nav_timeout = [] @ GetBrowser (Inr 0) # drop 1 trace_nav_timeout"
    by (simp add: trace_nav_timeout_def)
  show ?thesis using borrowed_handles_released_on_failure [OF run_nav_timeout d] run_nav_timeout d by simp
qed

section \<open>The retry budget and the retry policy\<close>

lemma policy_ok_no_attempt: "\<not> list_ex is_attempt xs \<Longrightarrow> policy_ok xs"
  by (induction xs) (auto split: option.splits)

lemma policy_ok_append:
  "policy_ok (xs @ ys) =
     (policy_ok xs \<and> policy_ok ys \<and> (list_ex is_attempt ys \<longrightarrow> all_retryable xs))"
  by (induction xs) (auto simp add: all_retryable_def split: option.splits)

lemma policy_ok_explicit:
  assumes "policy_ok tr" and "tr = pre @ x # post" and "failure x = Some e"
    and "\<exists>ev \<in> set post. is_attempt ev"
  shows "retryable e"
  using assms by (auto simp add: policy_ok_append list_ex_iff)

lemma backoff_ok_no_attempt: "\<not> list_ex is_attempt xs \<Longrightarrow> backoff_ok seen slept xs"
  by (induction xs arbitrary: seen slept) auto

lemma backoff_ok_append:
  "backoff_ok seen slept (xs @ ys) =
     (backoff_ok seen slept xs \<and>
      backoff_ok (seen \<or> list_ex is_attempt xs) (if xs = [] then slept else last xs = Sleep 100) ys)"
proof (induction xs arbitrary: seen slept)
  case Nil
  then show ?case by simp
next
  case (Cons x xs)
  show ?case
  proof (cases xs)
    case Nil
    then show ?thesis by (cases x) auto
  next
    case (Cons y zs)
    then show ?thesis using Cons.IH by auto
  qed
qed

lemma backoff_ok_explicit:
  assumes "backoff_ok False False tr" and "tr = pre @ ev # post" and "is_attempt ev"
    and "\<exists>x \<in> set pre. is_attempt x"
  shows "\<exists>pre'. pre = pre' @ [Sleep 100]"
proof -
  have ne: "pre \<noteq> []" using assms(4) by auto
  have "backoff_ok (list_ex is_attempt pre) (last pre = Sleep 100) (ev # post)"
    using assms(1,2) ne by (simp add: backoff_ok_append del: backoff_ok.simps)
  moreover have "list_ex is_attempt pre"
    using assms(4) by (simp add: list_ex_iff)
  ultimately have "last pre = Sleep 100"
    using assms(3) by simp
  then have "pre = butlast pre @ [Sleep 100]"
    using ne append_butlast_last_id [of pre] by simp
  then show ?thesis by blast
qed

lemma attempts_simps [simp]:
  "attempts [] = 0" "attempts (x # xs) = (if is_attempt x then 1 else 0) + attempts xs"
  by (simp_all add: attempts_def)

lemma creations_simps [simp]:
  "creations [] = 0" "creations (x # xs) = (if is_newContext x then 1 else 0) + creations xs"
  by (simp_all add: creations_def)

lemma attempts_append [simp]: "attempts (xs @ ys) = attempts xs + attempts ys"
  by (simp add: attempts_def)

lemma creations_append [simp]: "creations (xs @ ys) = creations xs + creations ys"
  by (simp add: creations_def)

lemma all_retryable_append [simp]: "all_retryable (xs @ ys) = (all_retryable xs \<and> all_retryable ys)"
  by (simp add: all_retryable_def)

lemma attempts_zero: "attempts tr = 0 \<longleftrightarrow> \<not> list_ex is_attempt tr"
  by (induction tr) (auto simp add: attempts_def)

lemma creations_zero: "creations tr = 0 \<longleftrightarrow> \<not> list_ex is_newContext tr"
  by (induction tr) (auto simp add: creations_def)

lemma quiet_counts: "quiet evs \<Longrightarrow> attempts evs = 0 \<and> creations evs = 0"
  by (simp add: quiet_def attempts_zero creations_zero)

lemma fails_only_None: "fails_only None evs \<Longrightarrow> all_retryable evs"
  by (induction evs) (auto simp add: fails_only_def all_retryable_def)

lemma fails_only_Some: "fails_only (Some e) evs \<Longrightarrow> retryable e \<Longrightarrow> all_retryable evs"
  by (induction evs) (auto simp add: fails_only_def all_retryable_def)

lemma replace_browser_effect:
  assumes "replace_browser w v = (r, v')"
  shows "\<exists>evs. trace v' = trace v @ evs \<and> quiet evs \<and> fails_only r evs"
  using assms
  by (auto simp add: replace_browser_def getBrowser_def acquireContextLock_def releaseBrowser_def
      release_lock_if_set_def and_then_eq quiet_def fails_only_def
      split: sum.splits option.splits if_splits)

lemma release_effect:
  "\<exists>evs. trace (releaseBrowser (release_lock_if_set v)) = trace v @ evs \<and> quiet evs \<and> fails_only None evs"
  by (auto simp add: releaseBrowser_def release_lock_if_set_def quiet_def fails_only_def
      split: option.splits)

lemma create_effect:
  assumes "create_context_and_page w v = (r, v')"
  shows "\<exists>evs. trace v' = trace v @ evs \<and> \<not> list_ex is_attempt evs \<and> creations evs \<le> 1 \<and> fails_only r evs"
  using assms
  by (auto simp add: create_context_and_page_def newContext_def newPage_def and_then_eq
      creations_def fails_only_def split: sum.splits option.splits if_splits)

lemma attempt_effect:
  assumes "attempt w v = (r, v')"
  shows "\<exists>evs. trace v' = trace v @ evs \<and> fails_only r evs \<and> creations evs \<le> attempts evs \<and>
           attempts evs \<le> 1 \<and>
           (evs = [] \<or> (\<exists>b c rest. evs = IsConnected b c # rest \<and> \<not> list_ex is_attempt rest))"
proof (cases "browser v")
  case None
  then show ?thesis using assms by (auto simp add: attempt_def fails_only_def)
next
  case (Some b)
  let ?c = "isConnected_result w (now v)"
  let ?v1 = "log (IsConnected b ?c) v"
  have shape: "\<exists>rest. trace v' = trace ?v1 @ rest \<and> \<not> list_ex is_attempt rest \<and>
                  creations rest \<le> 1 \<and> fails_only r rest"
  proof (cases ?c)
    case True
    then have "create_context_and_page w ?v1 = (r, v')"
      using assms Some by (simp add: attempt_def Let_def)
    then show ?thesis by (rule create_effect)
  next
    case False
    then have "and_then (replace_browser w ?v1) (create_context_and_page w) = (r, v')"
      using assms Some by (simp add: attempt_def Let_def)
    then consider e where "replace_browser w ?v1 = (Some e, v')" "r = Some e"
      | v2 where "replace_browser w ?v1 = (None, v2)" "create_context_and_page w v2 = (r, v')"
      by (auto simp add: and_then_eq)
    then show ?thesis
    proof cases
      case 1
      obtain evs where "trace v' = trace ?v1 @ evs" "quiet evs" "fails_only (Some e) evs"
        using replace_browser_effect [OF 1(1)] by blast
      then show ?thesis using 1(2) quiet_counts [of evs] by (auto simp add: quiet_def)
    next
      case 2
      obtain evs where e1: "trace v2 = trace ?v1 @ evs" "quiet evs" "fails_only None evs"
        using replace_browser_effect [OF 2(1)] by blast
      obtain evs' where e2: "trace v' = trace v2 @ evs'" "\<not> list_ex is_attempt evs'"
        "creations evs' \<le> 1" "fails_only r evs'"
        using create_effect [OF 2(2)] by blast
      have "trace v' = trace ?v1 @ (evs @ evs')" using e1 e2 by simp
      moreover have "\<not> list_ex is_attempt (evs @ evs')" using e1 e2 by (simp add: quiet_def)
      moreover have "creations (evs @ evs') \<le> 1" using e1 e2 quiet_counts [of evs] by simp
      moreover have "fails_only r (evs @ evs')" using e1 e2 by (auto simp add: fails_only_def list_all_iff)
      ultimately show ?thesis by blast
    qed
  qed
  then obtain rest where r: "trace v' = trace ?v1 @ rest" "\<not> list_ex is_attempt rest"
    "creations rest \<le> 1" "fails_only r rest" by blast
  have "trace v' = trace v @ (IsConnected b ?c # rest)" using r(1) by simp
  moreover have "fails_only r (IsConnected b ?c # rest)" using r(4) by (simp add: fails_only_def)
  moreover have "attempts (IsConnected b ?c # rest) = 1"
    using r(2) attempts_zero [of rest] by (simp add: attempts_def)
  moreover have "creations (IsConnected b ?c # rest) \<le> 1" using r(3) by (simp add: creations_def)
  ultimately show ?thesis using r(2) by (intro exI [of _ "IsConnected b ?c # rest"]) auto
qed

lemma loop_post_quiet:
  assumes "loop_post budget r tr" and "quiet evs" and "r = None \<longrightarrow> all_retryable evs"
  shows "loop_post budget r (tr @ evs)"
  using assms quiet_counts [of evs]
  by (auto simp add: loop_post_def quiet_def policy_ok_append policy_ok_no_attempt
      backoff_ok_append backoff_ok_no_attempt)

lemma loop_inv_attempt:
  assumes "loop_inv budget (Suc n) tr" and "fails_only r evs" and "creations evs \<le> attempts evs"
    and "attempts evs \<le> 1"
    and "evs = [] \<or> (\<exists>b c rest. evs = IsConnected b c # rest \<and> \<not> list_ex is_attempt rest)"
  shows "policy_ok (tr @ evs)" and "backoff_ok False False (tr @ evs)"
    and "attempts (tr @ evs) + n \<le> budget" and "creations (tr @ evs) \<le> attempts (tr @ evs)"
    and "r = None \<or> (\<exists>e. r = Some e \<and> retryable e) \<Longrightarrow> all_retryable (tr @ evs)"
proof -
  show "policy_ok (tr @ evs)"
    using assms(1,5) by (auto simp add: loop_inv_def policy_ok_append policy_ok_no_attempt)
  show "backoff_ok False False (tr @ evs)"
    using assms(1,5) by (auto simp add: loop_inv_def backoff_ok_append backoff_ok_no_attempt attempts_zero)
  show "attempts (tr @ evs) + n \<le> budget"
    using assms(1,4) by (simp add: loop_inv_def)
  show "creations (tr @ evs) \<le> attempts (tr @ evs)"
    using assms(1,3) by (simp add: loop_inv_def)
  show "r = None \<or> (\<exists>e. r = Some e \<and> retryable e) \<Longrightarrow> all_retryable (tr @ evs)"
    using assms(1,2) fails_only_None [of evs] fails_only_Some [of _ evs]
    by (auto simp add: loop_inv_def)
qed

lemma retry_loop_policy:
  "retry_loop w n v = (r, v') \<Longrightarrow> loop_inv budget n (trace v) \<Longrightarrow> loop_post budget r (trace v')"
proof (induction n arbitrary: v)
  case 0
  then show ?case by (simp add: loop_inv_def loop_post_def)
next
  case (Suc n)
  obtain r1 v1 where a: "attempt w v = (r1, v1)" by (cases "attempt w v")
  obtain evs where e: "trace v1 = trace v @ evs" "fails_only r1 evs" "creations evs \<le> attempts evs"
    "attempts evs \<le> 1"
    "evs = [] \<or> (\<exists>b c rest. evs = IsConnected b c # rest \<and> \<not> list_ex is_attempt rest)"
    using attempt_effect [OF a] by blast
  note f = loop_inv_attempt [OF Suc.prems(2) e(2-5)]
  have base: "policy_ok (trace v1)" "backoff_ok False False (trace v1)"
    "attempts (trace v1) + n \<le> budget" "creations (trace v1) \<le> attempts (trace v1)"
    using f(1-4) e(1) by simp_all
  have post1: "r1 = None \<or> (\<exists>e. r1 = Some e \<and> retryable e) \<Longrightarrow> all_retryable (trace v1)"
    using f(5) e(1) by simp
  show ?case
  proof (cases r1)
    case None
    then have "r = None" "v' = v1" using Suc.prems(1) a by auto
    then show ?thesis using base post1 None by (simp add: loop_post_def)
  next
    case (Some err)
    show ?thesis
    proof (cases "retryable err \<and> n > 0")
      case True
      have ar: "all_retryable (trace v1)" using post1 Some True by simp
      obtain r2 v2 where b: "replace_browser w v1 = (r2, v2)" by (cases "replace_browser w v1")
      obtain evs2 where e2: "trace v2 = trace v1 @ evs2" "quiet evs2" "fails_only r2 evs2"
        using replace_browser_effect [OF b] by blast
      show ?thesis
      proof (cases r2)
        case None
        have "loop_inv budget n (trace (log (Sleep 100) v2))"
          using base ar e2 None quiet_counts [of evs2] fails_only_None [of evs2]
          by (auto simp add: loop_inv_def quiet_def policy_ok_append policy_ok_no_attempt
              backoff_ok_append backoff_ok_no_attempt all_retryable_def)
        then have "loop_post budget r (trace v')"
          using Suc.IH [of "log (Sleep 100) v2"] Suc.prems(1) a Some True b None by simp
        then show ?thesis .
      next
        case (Some e')
        then have rv: "r = Some e'" "v' = v2" using Suc.prems(1) a \<open>r1 = Some err\<close> True b by auto
        have "loop_post budget r (trace v1)" using base rv by (simp add: loop_post_def)
        then show ?thesis using loop_post_quiet [of budget r "trace v1" evs2] e2 rv by simp
      qed
    next
      case False
      then have rv: "r = Some err" "v' = releaseBrowser (release_lock_if_set v1)"
        using Suc.prems(1) a Some by auto
      obtain evs3 where e3: "trace v' = trace v1 @ evs3" "quiet evs3"
        using release_effect [of v1] rv by blast
      have "loop_post budget r (trace v1)" using base rv by (simp add: loop_post_def)
      then show ?thesis using loop_post_quiet [of budget r "trace v1" evs3] e3 rv by simp
    qed
  qed
qed

lemma getBrowser_effect:
  assumes "getBrowser w v = (r, v')"
  shows "\<exists>evs. trace v' = trace v @ evs \<and> quiet evs \<and> fails_only r evs"
  using assms by (auto simp add: getBrowser_def quiet_def fails_only_def split: sum.splits)

lemma acquireContextLock_effect:
  assumes "acquireContextLock w v = (r, v')"
  shows "\<exists>evs. trace v' = trace v @ evs \<and> quiet evs \<and> fails_only r evs"
  using assms by (auto simp add: acquireContextLock_def quiet_def fails_only_def split: option.splits)

lemma after_loop_effect:
  "\<exists>evs. trace (case releaseLock v of
                    Some l \<Rightarrow> (log (ReleaseLock l) v)\<lparr>releaseLock := None\<rparr>
                  | None \<Rightarrow> v) = trace v @ evs \<and> quiet evs \<and> fails_only None evs"
  by (auto simp add: quiet_def fails_only_def split: option.splits)

lemma navigate_effect:
  assumes "navigate w targetUrl v = (r, v')"
  shows "\<exists>evs. trace v' = trace v @ evs \<and> quiet evs \<and> fails_only None evs"
  using assms by (auto simp add: navigate_def quiet_def fails_only_def split: option.splits)

lemma releaseBrowser_effect:
  "\<exists>evs. trace (releaseBrowser v) = trace v @ evs \<and> quiet evs \<and> fails_only None evs"
  by (auto simp add: releaseBrowser_def quiet_def fails_only_def)

lemma cleanup_effect:
  "\<exists>evs. trace (cleanup w v) = trace v @ evs \<and> quiet evs \<and> fails_only None evs"
  by (auto simp add: cleanup_def Let_def releaseBrowser_def release_lock_if_set_def quiet_def
      fails_only_def split: option.splits)

lemma loop_post_start:
  assumes "quiet evs" and "fails_only r evs"
  shows "loop_post budget r evs"
  using assms quiet_counts [of evs] fails_only_None [of evs]
  by (auto simp add: loop_post_def quiet_def policy_ok_no_attempt backoff_ok_no_attempt)

lemma loop_inv_start:
  assumes "quiet evs" and "fails_only None evs"
  shows "loop_inv budget budget evs"
  using assms quiet_counts [of evs] fails_only_None [of evs]
  by (auto simp add: loop_inv_def quiet_def policy_ok_no_attempt backoff_ok_no_attempt)

lemma loop_post_weaken: "loop_post budget None tr \<Longrightarrow> loop_post budget r tr"
  by (simp add: loop_post_def)

lemma create_body_policy:
  assumes "create_body w chiliPiperUrl built initial_vars = (r, v)"
  shows "loop_post 3 r (trace v)"
proof (cases "chiliPiperUrl = [] \<or> (\<exists>e. built = Inl e)")
  case True
  then have "trace v = []" "r \<noteq> None"
    using assms by (auto simp add: create_body_def initial_vars_def split: if_splits)
  then show ?thesis by (auto simp add: loop_post_def)
next
  case False
  then obtain targetUrl where t: "chiliPiperUrl \<noteq> []" "built = Inr targetUrl"
    by (cases built) auto
  let ?after = "\<lambda>v3. (case releaseLock v3 of
                      Some l \<Rightarrow> (log (ReleaseLock l) v3)\<lparr>releaseLock := None\<rparr>
                    | None \<Rightarrow> v3)"
  obtain r1 v1 where g: "getBrowser w initial_vars = (r1, v1)" by (cases "getBrowser w initial_vars")
  obtain evs1 where e1: "trace v1 = evs1" "quiet evs1" "fails_only r1 evs1"
    using getBrowser_effect [OF g] by (auto simp add: initial_vars_def)
  show ?thesis
  proof (cases r1)
    case (Some e)
    then have "r = r1" "v = v1" using assms t g by (auto simp add: create_body_def)
    then show ?thesis using e1 loop_post_start by simp
  next
    case None
    obtain r2 v2 where a: "acquireContextLock w v1 = (r2, v2)" by (cases "acquireContextLock w v1")
    obtain evs2 where e2: "trace v2 = trace v1 @ evs2" "quiet evs2" "fails_only r2 evs2"
      using acquireContextLock_effect [OF a] by blast
    have q2: "quiet (trace v2)" using e1 e2 by (simp add: quiet_def)
    have f2: "fails_only r2 (trace v2)" using e1 e2 None by (auto simp add: fails_only_def list_all_iff)
    show ?thesis
    proof (cases r2)
      case (Some e)
      then have "r = r2" "v = v2" using assms t g None a by (auto simp add: create_body_def)
      then show ?thesis using q2 f2 loop_post_start by simp
    next
      case None
      obtain r3 v3 where l: "retry_loop w 3 v2 = (r3, v3)" by (cases "retry_loop w 3 v2")
      have p3: "loop_post 3 r3 (trace v3)"
        using l loop_inv_start [OF q2] f2 None by (auto intro: retry_loop_policy)
      show ?thesis
      proof (cases r3)
        case (Some e)
        then have "r = r3" "v = v3"
          using assms t g \<open>r1 = None\<close> a \<open>r2 = None\<close> l by (auto simp add: create_body_def)
        then show ?thesis using p3 by simp
      next
        case None
        obtain evs4 where e4: "trace (?after v3) = trace v3 @ evs4" "quiet evs4" "fails_only None evs4"
          using after_loop_effect [of v3] by blast
        have p4: "loop_post 3 None (trace (?after v3))"
          using loop_post_quiet [of 3 None "trace v3" evs4] p3 None e4 fails_only_None [of evs4]
          by simp
        have fin: "(if page (?after v3) = None
               then (Some (JsError ''Error'' ''Failed to create browser context after retries''),
                     releaseBrowser (?after v3))
               else navigate w targetUrl (?after v3)) = (r, v)"
          using assms t g \<open>r1 = None\<close> a \<open>r2 = None\<close> l None
          by (simp add: create_body_def Let_def)
        obtain evs5 where e5: "trace v = trace (?after v3) @ evs5" "quiet evs5" "fails_only None evs5"
          using fin releaseBrowser_effect [of "?after v3"] navigate_effect [of w targetUrl "?after v3" r v]
          by (auto split: if_splits)
        have "loop_post 3 None (trace v)"
          using loop_post_quiet [of 3 None "trace (?after v3)" evs5] p4 e5 fails_only_None [of evs5]
          by simp
        then show ?thesis by (rule loop_post_weaken)
      qed
    qed
  qed
qed

lemma createInstanceForEmail_policy:
  assumes "createInstanceForEmail w chiliPiperUrl built = (result, tr)"
  shows "policy_ok tr" and "backoff_ok False False tr" and "attempts tr \<le> 3"
    and "creations tr \<le> attempts tr" and "result \<noteq> None \<Longrightarrow> all_retryable tr"
proof -
  obtain r v where c: "create_body w chiliPiperUrl built initial_vars = (r, v)"
    by (cases "create_body w chiliPiperUrl built initial_vars")
  have p: "loop_post 3 r (trace v)" using c by (rule create_body_policy)
  obtain evs where e: "trace (cleanup w v) = trace v @ evs" "quiet evs"
    using cleanup_effect [of w v] by blast
  have p': "r \<noteq> None \<Longrightarrow> loop_post 3 r (trace (cleanup w v))"
    using loop_post_quiet [OF p e(2)] e(1) by auto
  have "loop_post 3 r tr \<and> (result \<noteq> None \<longrightarrow> r = None)"
    using assms c p p' by (auto simp add: createInstanceForEmail_def split: option.splits)
  then show "policy_ok tr" and "backoff_ok False False tr" and "attempts tr \<le> 3"
    and "creations tr \<le> attempts tr" and "result \<noteq> None \<Longrightarrow> all_retryable tr"
    by (auto simp add: loop_post_def)
qed

text \<open>Claim C3. In every run of \<open>createInstanceForEmail\<close>: the retry loop makes at most three
  passes and context creation is attempted at most three times; every pass after the first
  is directly preceded by the delay of 100 milliseconds; a failed call is followed by a
  further pass only if the message of its error contains \<open>has been closed\<close>; and a failed
  call with any other message makes the run return \<open>null\<close>.\<close>

theorem retry_budget_and_policy:
  assumes "createInstanceForEmail w chiliPiperUrl built = (result, tr)"
  shows "length (filter is_attempt tr) \<le> 3 \<and> length (filter is_newContext tr) \<le> 3 \<and>
         (\<forall>pre ev post. tr = pre @ ev # post \<and> is_attempt ev \<and> (\<exists>x \<in> set pre. is_attempt x) \<longrightarrow>
            (\<exists>pre'. pre = pre' @ [Sleep 100])) \<and>
         (\<forall>pre x post e. tr = pre @ x # post \<and> failure x = Some e \<and> (\<exists>ev \<in> set post. is_attempt ev) \<longrightarrow>
            str_includes (message e) ''has been closed'') \<and>
         (\<forall>x e. x \<in> set tr \<and> failure x = Some e \<and> \<not> str_includes (message e) ''has been closed'' \<longrightarrow>
            result = None)"
proof -
  note p = createInstanceForEmail_policy [OF assms]
  have a: "length (filter is_attempt tr) \<le> 3"
    using p(3) by (simp add: attempts_def)
  have c: "length (filter is_newContext tr) \<le> 3"
    using p(3,4) by (simp add: attempts_def creations_def)
  have b: "\<forall>pre ev post. tr = pre @ ev # post \<and> is_attempt ev \<and> (\<exists>x \<in> set pre. is_attempt x) \<longrightarrow>
            (\<exists>pre'. pre = pre' @ [Sleep 100])"
    using backoff_ok_explicit [OF p(2)] by blast
  have r: "\<forall>pre x post e. tr = pre @ x # post \<and> failure x = Some e \<and> (\<exists>ev \<in> set post. is_attempt ev) \<longrightarrow>
            str_includes (message e) ''has been closed''"
    using policy_ok_explicit [OF p(1)] by (auto simp add: retryable_def)
  have n: "\<forall>x e. x \<in> set tr \<and> failure x = Some e \<and> \<not> str_includes (message e) ''has been closed'' \<longrightarrow>
            result = None"
  proof (intro allI impI)
    fix x e
    assume h: "x \<in> set tr \<and> failure x = Some e \<and> \<not> str_includes (message e) ''has been closed''"
    show "result = None"
    proof (rule ccontr)
      assume "result \<noteq> None"
      then have "all_retryable tr" by (rule p(5))
      then have "retryable e" using h by (auto simp add: all_retryable_def list_all_iff)
      then show False using h by (simp add: retryable_def)
    qed
  qed
  show ?thesis using a c b r n by blast
qed

text \<open>Claim C3 in two runs: one whose three attempts fail with a closed browser, each retry
  after the delay, and one whose first attempt fails with another error and is not retried.\<close>

theorem retry_budget_and_policy_witness:
  "createInstanceForEmail world_closed ''https://cal.example.com/book'' (buildUrl_result world_closed) =
     (None, trace_closed) \<and>
   length (filter is_attempt trace_closed) = 3 \<and> length (filter is_newContext trace_closed) = 3 \<and>
   trace_closed = take 9 trace_closed @ IsConnected 6 True # drop 10 trace_closed \<and>
   take 9 trace_closed = take 8 trace_closed @ [Sleep 100] \<and>
   trace_closed = take 3 trace_closed @ NewContext 0 (Inl closed_error) # drop 4 trace_closed \<and>
   str_includes (message closed_error) ''has been closed'' \<and>
   createInstanceForEmail world_boom ''https://cal.example.com/book'' (buildUrl_result world_boom) =
     (None, trace_boom) \<and>
   NewPage 3 (Inl (JsError ''Error'' ''browserContext.newPage: Protocol error'')) \<in> set trace_boom \<and>
   \<not> str_includes (message (JsError ''Error'' ''browserContext.newPage: Protocol error'')) ''has been closed''"
proof -
  note t = retry_budget_and_policy [OF run_closed]
  note u = retry_budget_and_policy [OF run_boom]
  have counts: "length (filter is_attempt trace_closed) = 3" "length (filter is_newContext trace_closed) = 3"
    by (simp_all add: trace_closed_def)
  have d1: "trace_closed = take 9 trace_closed @ IsConnected 6 True # drop 10 trace_closed"
    by (simp add: trace_closed_def)
  have a1: "is_attempt (IsConnected 6 True)" "\<exists>x \<in> set (take 9 trace_closed). is_attempt x"
    by (simp_all add: trace_closed_def)
  have "\<exists>pre'. take 9 trace_closed = pre' @ [Sleep 100]"
    using t d1 a1 by blast
  then have s1: "take 9 trace_closed = take 8 trace_closed @ [Sleep 100]"
    by (auto simp add: trace_closed_def)
  have d2: "trace_closed = take 3 trace_closed @ NewContext 0 (Inl closed_error) # drop 4 trace_closed"
    by (simp add: trace_closed_def)
  have a2: "failure (NewContext 0 (Inl closed_error)) = Some closed_error"
    "\<exists>ev \<in> set (drop 4 trace_closed). is_attempt ev"
    by (simp_all add: trace_closed_def)
  have s2: "str_includes (message closed_error) ''has been closed''"
    using t d2 a2 by blast
  have m: "NewPage 3 (Inl (JsError ''Error'' ''browserContext.newPage: Protocol error'')) \<in> set trace_boom"
    "failure (NewPage 3 (Inl (JsError ''Error'' ''browserContext.newPage: Protocol error''))) =
       Some (JsError ''Error'' ''browserContext.newPage: Protocol error'')"
    by (simp_all add: trace_boom_def)
  have nb: "\<not> str_includes (message (JsError ''Error'' ''browserContext.newPage: Protocol error'')) ''has been closed''"
    by code_simp
  have "(None :: browser_instance option) = None" using u m nb by blast
  then show ?thesis using counts d1 s1 d2 s2 m(1) nb run_closed run_boom by simp
qed

section \<open>The connectivity check\<close>

lemma guarded_rev_suffix: "guarded_rev (xs @ ys) \<Longrightarrow> guarded_rev ys"
  by (induction xs) auto

lemma checked_rev_explicit:
  assumes "checked_rev q b"
  shows "(\<exists>q'. q = IsConnected b True # q') \<or>
         (\<exists>q' b0 l0 l1. q = AcquireContextLock (Some b) (Inr l1) # GetBrowser (Inr b) #
            ReleaseBrowser (Some b0) # ReleaseLock l0 # IsConnected b0 False # q')"
proof -
  obtain e1 r1 where q: "q = e1 # r1" using assms by (cases q) (auto simp add: checked_rev_def)
  show ?thesis
  proof (cases "check_of e1 = Some (b, True)")
    case True
    then have "e1 = IsConnected b True" by (cases e1) auto
    then show ?thesis using q by blast
  next
    case False
    then obtain e2 e3 e4 e5 r5 b0 where r: "r1 = e2 # e3 # e4 # e5 # r5"
      "acquired_for e1 = Some b" "got_browser e2 = Some b" "is_release_lock e4"
      "released_browser e3 = Some b0" "check_of e5 = Some (b0, False)"
      using assms q by (auto simp add: checked_rev_def split: list.splits option.splits)
    have "\<exists>l1. e1 = AcquireContextLock (Some b) (Inr l1)"
      using r(2) by (cases e1) (auto split: sum.splits)
    moreover have "e2 = GetBrowser (Inr b)"
      using r(3) by (cases e2) (auto split: sum.splits)
    moreover have "e3 = ReleaseBrowser (Some b0)"
      using r(5) by (cases e3) auto
    moreover have "\<exists>l0. e4 = ReleaseLock l0"
      using r(4) by (cases e4) auto
    moreover have "e5 = IsConnected b0 False"
      using r(6) by (cases e5) auto
    ultimately show ?thesis using q r(1) by blast
  qed
qed

lemma guarded_explicit:
  assumes "guarded_rev (rev tr)" and "tr = pre @ NewContext b r # post"
  shows "(\<exists>p. pre = p @ [IsConnected b True]) \<or>
         (\<exists>p b0 l0 l1. pre = p @ [IsConnected b0 False, ReleaseLock l0, ReleaseBrowser (Some b0),
            GetBrowser (Inr b), AcquireContextLock (Some b) (Inr l1)])"
proof -
  have "guarded_rev (rev post @ NewContext b r # rev pre)"
    using assms by simp
  then have "guarded_rev (NewContext b r # rev pre)"
    by (rule guarded_rev_suffix)
  then have "checked_rev (rev pre) b" by simp
  then consider q' where "rev pre = IsConnected b True # q'"
    | q' b0 l0 l1 where "rev pre = AcquireContextLock (Some b) (Inr l1) # GetBrowser (Inr b) #
            ReleaseBrowser (Some b0) # ReleaseLock l0 # IsConnected b0 False # q'"
    using checked_rev_explicit by blast
  then show ?thesis
  proof cases
    case 1
    then have "pre = rev q' @ [IsConnected b True]"
      by (metis rev_rev_ident rev.simps(2))
    then show ?thesis by blast
  next
    case 2
    then have "rev (rev pre) = rev (AcquireContextLock (Some b) (Inr l1) # GetBrowser (Inr b) #
            ReleaseBrowser (Some b0) # ReleaseLock l0 # IsConnected b0 False # q')"
      by simp
    then have "pre = rev q' @ [IsConnected b0 False, ReleaseLock l0, ReleaseBrowser (Some b0),
            GetBrowser (Inr b), AcquireContextLock (Some b) (Inr l1)]"
      by simp
    then show ?thesis by blast
  qed
qed

lemma conn_replace_browser:
  assumes "replace_browser w v = (r, v')" and "guarded_rev (rev (trace v))"
  shows "guarded_rev (rev (trace v'))" and "r = None \<Longrightarrow> browser v' \<noteq> None \<and> releaseLock v' \<noteq> None"
    and "browser v \<noteq> None \<Longrightarrow> releaseLock v \<noteq> None \<Longrightarrow> browser v' \<noteq> None \<and> releaseLock v' \<noteq> None"
    and "r \<noteq> None \<Longrightarrow> \<exists>x \<in> set (trace v'). failed x"
  using assms
  by (auto simp add: replace_browser_def getBrowser_def acquireContextLock_def releaseBrowser_def
      release_lock_if_set_def and_then_eq checked_rev_def split: sum.splits option.splits if_splits)

lemma conn_create:
  assumes "create_context_and_page w v = (r, v')" and "guarded_rev (rev (trace v))"
    and "browser v = Some b" and "checked_rev (rev (trace v)) b"
  shows "guarded_rev (rev (trace v'))" and "browser v' = browser v" and "releaseLock v' = releaseLock v"
    and "r = None \<Longrightarrow> page v' \<noteq> None" and "r \<noteq> None \<Longrightarrow> \<exists>x \<in> set (trace v'). failed x"
  using assms
  by (auto simp add: create_context_and_page_def newContext_def newPage_def and_then_eq
      split: sum.splits option.splits if_splits)

lemma replace_after_check:
  assumes "replace_browser w (log (IsConnected b False) v) = (None, v2)" and "releaseLock v = Some l"
    and "browser v = Some b"
  shows "\<exists>b'. browser v2 = Some b' \<and> checked_rev (rev (trace v2)) b'"
  using assms
  by (auto simp add: replace_browser_def getBrowser_def acquireContextLock_def releaseBrowser_def
      release_lock_if_set_def and_then_eq checked_rev_def split: sum.splits option.splits if_splits)

lemma conn_attempt:
  assumes "attempt w v = (r, v')" and "conn_inv v"
  shows "conn_inv v'" and "r = None \<Longrightarrow> page v' \<noteq> None"
    and "r \<noteq> None \<Longrightarrow> \<exists>x \<in> set (trace v'). failed x"
proof -
  obtain b l where bl: "browser v = Some b" "releaseLock v = Some l" and g: "guarded_rev (rev (trace v))"
    using assms(2) by (auto simp add: conn_inv_def)
  let ?c = "isConnected_result w (now v)"
  let ?v1 = "log (IsConnected b ?c) v"
  have g1: "guarded_rev (rev (trace ?v1))" using g by simp
  have all: "conn_inv v' \<and> (r = None \<longrightarrow> page v' \<noteq> None) \<and> (r \<noteq> None \<longrightarrow> (\<exists>x \<in> set (trace v'). failed x))"
  proof (cases ?c)
    case True
    then have c: "create_context_and_page w ?v1 = (r, v')"
      using assms(1) bl by (simp add: attempt_def Let_def)
    have ch: "checked_rev (rev (trace ?v1)) b" using True by (simp add: checked_rev_def)
    have b1: "browser ?v1 = Some b" using bl by simp
    show ?thesis using conn_create [OF c g1 b1 ch] bl by (auto simp add: conn_inv_def)
  next
    case False
    then have "and_then (replace_browser w ?v1) (create_context_and_page w) = (r, v')"
      using assms(1) bl by (simp add: attempt_def Let_def)
    then consider e where "replace_browser w ?v1 = (Some e, v')" "r = Some e"
      | v2 where "replace_browser w ?v1 = (None, v2)" "create_context_and_page w v2 = (r, v')"
      by (auto simp add: and_then_eq)
    then show ?thesis
    proof cases
      case 1
      show ?thesis using conn_replace_browser [OF 1(1) g1] 1(2) bl by (auto simp add: conn_inv_def)
    next
      case 2
      have g2: "guarded_rev (rev (trace v2))" using conn_replace_browser(1) [OF 2(1) g1] .
      have f2: "browser v2 \<noteq> None \<and> releaseLock v2 \<noteq> None"
        using conn_replace_browser(2) [OF 2(1) g1] by simp
      obtain b' where b': "browser v2 = Some b'" "checked_rev (rev (trace v2)) b'"
        using replace_after_check [of w b v v2 l] 2(1) False bl by auto
      show ?thesis using conn_create [OF 2(2) g2 b'] f2 by (auto simp add: conn_inv_def)
    qed
  qed
  then show "conn_inv v'" and "r = None \<Longrightarrow> page v' \<noteq> None"
    and "r \<noteq> None \<Longrightarrow> \<exists>x \<in> set (trace v'). failed x"
    by auto
qed

lemma guarded_release:
  "guarded_rev (rev (trace v)) \<Longrightarrow> guarded_rev (rev (trace (releaseBrowser (release_lock_if_set v))))"
  by (auto simp add: releaseBrowser_def release_lock_if_set_def split: option.splits)

lemma release_trace_mono:
  "x \<in> set (trace v) \<Longrightarrow> x \<in> set (trace (releaseBrowser (release_lock_if_set v)))"
  by (auto simp add: releaseBrowser_def release_lock_if_set_def split: option.splits)

lemma conn_retry_loop:
  "retry_loop w n v = (r, v') \<Longrightarrow> conn_inv v \<Longrightarrow>
     guarded_rev (rev (trace v')) \<and> (r = None \<longrightarrow> n > 0 \<longrightarrow> page v' \<noteq> None) \<and>
     (r \<noteq> None \<longrightarrow> (\<exists>x \<in> set (trace v'). failed x))"
proof (induction n arbitrary: v)
  case 0
  then show ?case by (simp add: conn_inv_def)
next
  case (Suc n)
  obtain r1 v1 where a: "attempt w v = (r1, v1)" by (cases "attempt w v")
  note c1 = conn_attempt [OF a Suc.prems(2)]
  show ?case
  proof (cases r1)
    case None
    then have "r = None" "v' = v1" using Suc.prems(1) a by auto
    then show ?thesis using c1 None by (simp add: conn_inv_def)
  next
    case (Some err)
    show ?thesis
    proof (cases "retryable err \<and> n > 0")
      case True
      obtain r2 v2 where b: "replace_browser w v1 = (r2, v2)" by (cases "replace_browser w v1")
      have g1: "guarded_rev (rev (trace v1))" using c1(1) by (simp add: conn_inv_def)
      note c2 = conn_replace_browser [OF b g1]
      show ?thesis
      proof (cases r2)
        case None
        have "conn_inv (log (Sleep 100) v2)"
          using c2(1,2) None by (simp add: conn_inv_def)
        then show ?thesis
          using Suc.IH [of "log (Sleep 100) v2"] Suc.prems(1) a Some True b None by simp
      next
        case (Some e')
        then have "r = Some e'" "v' = v2" using Suc.prems(1) a \<open>r1 = Some err\<close> True b by auto
        then show ?thesis using c2(1,4) Some by simp
      qed
    next
      case False
      then have rv: "r = Some err" "v' = releaseBrowser (release_lock_if_set v1)"
        using Suc.prems(1) a Some by auto
      have g1: "guarded_rev (rev (trace v1))" using c1(1) by (simp add: conn_inv_def)
      obtain x where "x \<in> set (trace v1)" "failed x" using c1(3) Some by auto
      then show ?thesis using rv guarded_release [OF g1] release_trace_mono [of x v1] by auto
    qed
  qed
qed

lemma guarded_cleanup:
  "guarded_rev (rev (trace v)) \<Longrightarrow> guarded_rev (rev (trace (cleanup w v)))"
  by (auto simp add: cleanup_def Let_def releaseBrowser_def release_lock_if_set_def split: option.splits)

lemma cleanup_trace_mono:
  "x \<in> set (trace v) \<Longrightarrow> x \<in> set (trace (cleanup w v))"
  by (auto simp add: cleanup_def Let_def releaseBrowser_def release_lock_if_set_def split: option.splits)

lemma conn_create_body:
  assumes "create_body w chiliPiperUrl built initial_vars = (r, v)"
  shows "guarded_rev (rev (trace v))"
    and "r \<noteq> None \<Longrightarrow> v = initial_vars \<or> (\<exists>x \<in> set (trace v). failed x)"
    and "r = None \<Longrightarrow> page v \<noteq> None"
proof -
  have "guarded_rev (rev (trace v)) \<and> (r \<noteq> None \<longrightarrow> v = initial_vars \<or> (\<exists>x \<in> set (trace v). failed x)) \<and>
        (r = None \<longrightarrow> page v \<noteq> None)"
  proof (cases "chiliPiperUrl = [] \<or> (\<exists>e. built = Inl e)")
    case True
    then have "v = initial_vars" "r \<noteq> None"
      using assms by (auto simp add: create_body_def split: if_splits)
    then show ?thesis by (auto simp add: initial_vars_def)
  next
    case False
    then obtain targetUrl where t: "chiliPiperUrl \<noteq> []" "built = Inr targetUrl"
      by (cases built) auto
    let ?after = "\<lambda>v3. (case releaseLock v3 of
                        Some l \<Rightarrow> (log (ReleaseLock l) v3)\<lparr>releaseLock := None\<rparr>
                      | None \<Rightarrow> v3)"
    obtain r1 v1 where g: "getBrowser w initial_vars = (r1, v1)" by (cases "getBrowser w initial_vars")
    show ?thesis
    proof (cases r1)
      case (Some e)
      then have "r = r1" "v = v1" using assms t g by (auto simp add: create_body_def)
      then show ?thesis using g Some
        by (auto simp add: getBrowser_def initial_vars_def split: sum.splits)
    next
      case None
      obtain r2 v2 where a: "acquireContextLock w v1 = (r2, v2)" by (cases "acquireContextLock w v1")
      show ?thesis
      proof (cases r2)
        case (Some e)
        then have "r = r2" "v = v2" using assms t g \<open>r1 = None\<close> a by (auto simp add: create_body_def)
        then show ?thesis using g a Some \<open>r1 = None\<close>
          by (auto simp add: getBrowser_def acquireContextLock_def initial_vars_def
              split: sum.splits option.splits)
      next
        case None
        have i2: "conn_inv v2" using g a None \<open>r1 = None\<close>
          by (auto simp add: getBrowser_def acquireContextLock_def initial_vars_def conn_inv_def
              split: sum.splits option.splits)
        obtain r3 v3 where l: "retry_loop w 3 v2 = (r3, v3)" by (cases "retry_loop w 3 v2")
        note c3 = conn_retry_loop [OF l i2]
        show ?thesis
        proof (cases r3)
          case (Some e)
          then have "r = r3" "v = v3"
            using assms t g \<open>r1 = None\<close> a \<open>r2 = None\<close> l by (auto simp add: create_body_def)
          then show ?thesis using c3 Some by simp
        next
          case None
          have p3: "page v3 \<noteq> None" "guarded_rev (rev (trace v3))" using c3 None by auto
          have p4: "page (?after v3) \<noteq> None" "guarded_rev (rev (trace (?after v3)))"
            using p3 by (auto split: option.splits)
          have "navigate w targetUrl (?after v3) = (r, v)"
            using assms t g \<open>r1 = None\<close> a \<open>r2 = None\<close> l None p4(1)
            by (simp add: create_body_def Let_def)
          then show ?thesis using p4
            by (auto simp add: navigate_def split: option.splits)
        qed
      qed
    qed
  qed
  then show "guarded_rev (rev (trace v))"
    and "r \<noteq> None \<Longrightarrow> v = initial_vars \<or> (\<exists>x \<in> set (trace v). failed x)"
    and "r = None \<Longrightarrow> page v \<noteq> None"
    by auto
qed

text \<open>Claim C6. In every run of \<open>createInstanceForEmail\<close>, every context creation on a handle
  is directly preceded either by the successful connectivity check of that handle, or by the
  failed check of the handle held until then followed, in this order, by the release of the
  context lock, the return of the disconnected handle to the pool, the acquisition of the
  handle now used and the acquisition of its lock. A disconnected handle alone surfaces no error:
  a run returns \<open>null\<close> only if the URL was refused before any call, or some call of the run
  failed.\<close>

theorem connectivity_checked_before_context:
  assumes "createInstanceForEmail w chiliPiperUrl built = (result, tr)"
  shows "(\<forall>pre b r post. tr = pre @ NewContext b r # post \<longrightarrow>
            (\<exists>p. pre = p @ [IsConnected b True]) \<or>
            (\<exists>p b0 l0 l1. pre = p @ [IsConnected b0 False, ReleaseLock l0, ReleaseBrowser (Some b0),
               GetBrowser (Inr b), AcquireContextLock (Some b) (Inr l1)])) \<and>
         (result = None \<longrightarrow> tr = [] \<or> (\<exists>x \<in> set tr. failed x))"
proof -
  obtain r v where c: "create_body w chiliPiperUrl built initial_vars = (r, v)"
    by (cases "create_body w chiliPiperUrl built initial_vars")
  note cb = conn_create_body [OF c]
  have g: "guarded_rev (rev tr)"
    using assms c cb(1) guarded_cleanup [of v w]
    by (auto simp add: createInstanceForEmail_def split: option.splits)
  have f: "result = None \<longrightarrow> tr = [] \<or> (\<exists>x \<in> set tr. failed x)"
  proof (cases r)
    case None
    then show ?thesis using assms c by (auto simp add: createInstanceForEmail_def)
  next
    case (Some e)
    then have tr: "tr = trace (cleanup w v)" using assms c by (auto simp add: createInstanceForEmail_def)
    have "v = initial_vars \<or> (\<exists>x \<in> set (trace v). failed x)" using cb(2) Some by simp
    then show ?thesis
    proof
      assume "v = initial_vars"
      then show ?thesis using tr
        by (simp add: cleanup_def Let_def initial_vars_def release_lock_if_set_def)
    next
      assume "\<exists>x \<in> set (trace v). failed x"
      then show ?thesis using tr cleanup_trace_mono [of _ v w] by auto
    qed
  qed
  show ?thesis using g f guarded_explicit [of tr] by blast
qed

text \<open>Claim C6 in a run whose first handle is disconnected: the run replaces it and returns an
  instance on the replacement. A run that returns \<open>null\<close> contains a failed call.\<close>

theorem connectivity_checked_before_context_witness:
  "createInstanceForEmail world_disconnected ''https://cal.example.com/book'' (buildUrl_result world_disconnected) =
     (Some \<lparr>inst_browser = Some 5, inst_context = Some 7, inst_page = Some 8\<rparr>, trace_disconnected) \<and>
   trace_disconnected = take 7 trace_disconnected @ NewContext 5 (Inr 7) # drop 8 trace_disconnected \<and>
   take 7 trace_disconnected = take 2 trace_disconnected @
     [IsConnected 0 False, ReleaseLock 1, ReleaseBrowser (Some 0), GetBrowser (Inr 5),
      AcquireContextLock (Some 5) (Inr 6)] \<and>
   createInstanceForEmail world_boom ''https://cal.example.com/book'' (buildUrl_result world_boom) =
     (None, trace_boom) \<and>
   (\<exists>x \<in> set trace_boom. failed x)"
proof -
  note t = connectivity_checked_before_context [OF run_disconnected]
  note u = connectivity_checked_before_context [OF run_boom]
  have d: "trace_disconnected = take 7 trace_disconnected @ NewContext 5 (Inr 7) # drop 8 trace_disconnected"
    by (simp add: trace_disconnected_def)
  have "(\<exists>p. take 7 trace_disconnected = p @ [IsConnected 5 True]) \<or>
        (\<exists>p b0 l0 l1. take 7 trace_disconnected = p @ [IsConnected b0 False, ReleaseLock l0,
           ReleaseBrowser (Some b0), GetBrowser (Inr 5), AcquireContextLock (Some 5) (Inr l1)])"
    using t d by blast
  then have s: "take 7 trace_disconnected = take 2 trace_disconnected @
     [IsConnected 0 False, ReleaseLock 1, ReleaseBrowser (Some 0), GetBrowser (Inr 5),
      AcquireContextLock (Some 5) (Inr 6)]"
    by (simp add: trace_disconnected_def)
  have "trace_boom \<noteq> []" by (simp add: trace_boom_def)
  then have f: "\<exists>x \<in> set trace_boom. failed x"
    using u by blast
  show ?thesis using run_disconnected run_boom d s f by simp
qed

section \<open>Failure of session creation\<close>

text \<open>Claim C2, as amended. When no attempt of a run of \<open>createInstanceForEmail\<close> produces a
  page, in particular when every attempt of the retry budget fails, the run returns \<open>null\<close>;
  a booking task that has to create its instance then throws a plain \<open>Error\<close> with the
  message \<open>Failed to create browser instance\<close>.\<close>

theorem failed_creation_returns_null:
  assumes "createInstanceForEmail w chili_piper_url (buildUrl_result w) = (result, tr)"
    and "\<forall>c p. NewPage c (Inr p) \<notin> set tr"
    and "email = [] \<or> existingInstance_result w = None"
  shows "result = None \<and>
         fst (booking_task w email chili_piper_url date time) =
           Inl (JsError ''Error'' ''Failed to create browser instance'')"
proof -
  obtain r v where c: "create_body w chili_piper_url (buildUrl_result w) initial_vars = (r, v)"
    by (cases "create_body w chili_piper_url (buildUrl_result w) initial_vars")
  have "r \<noteq> None"
  proof
    assume n: "r = None"
    then have "page v \<noteq> None" using conn_create_body(3) [OF c] by simp
    moreover have "page_inv v" using inv_create_body [OF c] by (simp add: res_inv_def)
    ultimately have "list_ex created_page (trace v)" by (simp add: page_inv_def)
    moreover have "tr = trace v" using assms(1) c n by (simp add: createInstanceForEmail_def)
    ultimately show False using created_page_explicit [of tr] assms(2) by blast
  qed
  then have n: "result = None"
    using assms(1) c by (auto simp add: createInstanceForEmail_def)
  then show ?thesis using assms(1,3)
    by (auto simp add: booking_task_def Let_def)
qed

text \<open>Claim C2, as amended, in a run whose three attempts all fail.\<close>

theorem failed_creation_returns_null_witness:
  "createInstanceForEmail world_closed ''https://cal.example.com/book'' (buildUrl_result world_closed) =
     (None, trace_closed) \<and>
   list_all (\<lambda>ev. \<not> created_page ev) trace_closed \<and>
   existingInstance_result world_closed = None \<and>
   fst (booking_task world_closed ''a@b.co'' ''https://cal.example.com/book'' ''2025-11-13'' ''1:25 PM'') =
     Inl (JsError ''Error'' ''Failed to create browser instance'')"
proof -
  have np: "list_all (\<lambda>ev. \<not> created_page ev) trace_closed"
    by (simp add: trace_closed_def)
  have h: "\<forall>c p. NewPage c (Inr p) \<notin> set trace_closed"
    by (auto simp add: trace_closed_def)
  have e: "existingInstance_result world_closed = None"
    by (simp add: world_closed_def world_ok_def)
  have e': "''a@b.co'' = [] \<or> existingInstance_result world_closed = None"
    using e by simp
  show ?thesis
    using failed_creation_returns_null [OF run_closed h e', of "''2025-11-13''" "''1:25 PM''"] run_closed np e
    by simp
qed

text \<open>Claim C2 as stated fails: in a run whose three attempts all fail, session creation does
  not fail with a \<open>SessionCreationError\<close>. \<open>createInstanceForEmail\<close> returns \<open>null\<close> and the
  booking task throws an error of class \<open>Error\<close>.\<close>

theorem session_creation_error_counterexample:
  "createInstanceForEmail world_closed ''https://cal.example.com/book'' (buildUrl_result world_closed) =
     (None, trace_closed) \<and>
   length (filter is_attempt trace_closed) = 3 \<and>
   list_all (\<lambda>ev. \<not> created_page ev) trace_closed \<and>
   fst (booking_task world_closed ''a@b.co'' ''https://cal.example.com/book'' ''2025-11-13'' ''1:25 PM'') =
     Inl (JsError ''Error'' ''Failed to create browser instance'') \<and>
   err_name (JsError ''Error'' ''Failed to create browser instance'') \<noteq> ''SessionCreationError''"
proof -
  have b: "fst (booking_task world_closed ''a@b.co'' ''https://cal.example.com/book'' ''2025-11-13'' ''1:25 PM'') =
     Inl (JsError ''Error'' ''Failed to create browser instance'')"
    using run_closed by (simp add: booking_task_def Let_def world_closed_def world_ok_def)
  show ?thesis using run_closed b by (simp add: trace_closed_def)
qed

section \<open>The key of a registered session\<close>

text \<open>Claim C7 at a booking request without email, at time 1700000000000. The generated key is
  \<open>booking_1700000000000\<close>, but the new instance is registered under the empty string, not
  under the generated key.\<close>

theorem registration_ignores_generated_key:
  "instanceKey [] (date_now world_ok) = ''booking_1700000000000'' \<and>
   RegisterInstance [] \<lparr>inst_browser = Some 0, inst_context = Some 3, inst_page = Some 4\<rparr>
     \<in> set (snd (book_slot_POST world_ok (req_plain\<lparr>body_email := []\<rparr>))) \<and>
   RegisterInstance ''booking_1700000000000'' \<lparr>inst_browser = Some 0, inst_context = Some 3, inst_page = Some 4\<rparr>
     \<notin> set (snd (book_slot_POST world_ok (req_plain\<lparr>body_email := []\<rparr>)))"
proof -
  have k: "instanceKey [] (date_now world_ok) = ''booking_1700000000000''"
    by (simp add: instanceKey_def world_ok_def string_of_int_def string_of_nat.simps digit_char_def)
  show ?thesis unfolding run_no_email using k by simp
qed

section \<open>The test mode of the booking endpoint\<close>

text \<open>Claim C8, as amended. For every booking request that the security middleware admits,
  whose email contains \<open>test\<close> in any letter case and whose \<open>dateTime\<close> parses, the endpoint
  returns the success response with \<open>testMode\<close> true and the parsed date and time, and makes
  no call: nothing is submitted to the Concurrency Manager, no browser handle is acquired
  and no booking is performed.\<close>

theorem test_mode_short_circuit:
  assumes "allowed req"
    and "str_includes (toLowerCase (effective_email req)) ''test''"
    and "parseDateTime (body_dateTime req) = Some (date, time)"
  shows "book_slot_POST w req =
           (BookingSuccess
              \<lparr>resp_message = ''Slot booked successfully (TEST MODE - no actual booking performed)'',
               resp_date = date, resp_time = time, testMode = True\<rparr>, [])"
  using assms by (simp add: book_slot_POST_def Let_def)

text \<open>Claim C8, as amended, at a request from \<open>QA.Tester@example.com\<close>.\<close>

theorem test_mode_short_circuit_witness:
  "allowed req_test \<and> str_includes (toLowerCase (effective_email req_test)) ''test'' \<and>
   parseDateTime (body_dateTime req_test) = Some (''2025-11-13'', ''1:25 PM'') \<and>
   book_slot_POST world_ok req_test =
     (BookingSuccess
        \<lparr>resp_message = ''Slot booked successfully (TEST MODE - no actual booking performed)'',
         resp_date = ''2025-11-13'', resp_time = ''1:25 PM'', testMode = True\<rparr>, [])"
  using test_mode_short_circuit [OF req_test_facts, of world_ok] req_test_facts by simp

text \<open>Claim C8 as stated fails: a request whose email contains \<open>test\<close> and whose \<open>dateTime\<close>
  parses, but which the security middleware does not admit, gets an error response.\<close>

theorem test_mode_blocked_counterexample:
  "str_includes (toLowerCase (effective_email (req_test\<lparr>allowed := False\<rparr>))) ''test'' \<and>
   parseDateTime (body_dateTime (req_test\<lparr>allowed := False\<rparr>)) = Some (''2025-11-13'', ''1:25 PM'') \<and>
   book_slot_POST world_ok (req_test\<lparr>allowed := False\<rparr>) = (ErrorResponse ''UNAUTHORIZED'' None, [])"
  by code_simp

section \<open>The limit on listed slots\<close>

lemma slots_error_response_not_success [simp]: "slots_error_response e \<noteq> SlotsSuccess x"
  by (simp add: slots_error_response_def Let_def)

lemma get_slots_success:
  assumes "get_slots_POST w req = (SlotsSuccess x, tr)"
  shows "\<not> out_of_range (to_number (gs_max_slots req)) 1 100"
    and "\<exists>result. execute_scrape w = (Inr result, tr) \<and> success result \<and>
           x = add_timezone (gs_timezone req) (limit_slots (to_number (gs_max_slots req)) (data result))"
  using assms
  by (auto simp add: get_slots_POST_def Let_def split: if_splits prod.splits sum.splits)

text \<open>Claim C9. For every slot-listing request that succeeds and gives a valid \<open>max_slots\<close>
  (a number \<open>m\<close> from 1 on; success implies that it is at most 100), the slots of the
  response are at most \<open>m\<close>; when the scraped result has more than \<open>m\<close> slots, the response
  holds exactly the first \<open>m\<close> of them and reports \<open>total_slots\<close> as \<open>m\<close>.\<close>

theorem max_slots_limits_response:
  assumes "get_slots_POST w req = (SlotsSuccess (Some d), tr)"
    and "to_number (gs_max_slots req) = Some m" and "1 \<le> m"
    and "slots d = Some xs"
  shows "int (length xs) \<le> m \<and> m \<le> 100 \<and>
         (\<forall>result sd ys. gs_scrape_result w = Inr result \<and> data result = Some sd \<and>
             slots sd = Some ys \<and> int (length ys) > m \<longrightarrow>
             xs = take (nat m) ys \<and> total_slots d = m)"
proof -
  have range: "\<not> out_of_range (Some m) 1 100"
    using get_slots_success(1) [OF assms(1)] assms(2) by simp
  then have m100: "m \<le> 100" using assms(3) by (auto simp add: out_of_range_def)
  obtain result where ex: "execute_scrape w = (Inr result, tr)" and ok: "success result"
    and d: "add_timezone (gs_timezone req) (limit_slots (Some m) (data result)) = Some d"
    using get_slots_success(2) [OF assms(1)] assms(2) by auto
  have sr: "gs_scrape_result w = Inr result"
    using ex by (auto simp add: execute_scrape_def split: option.splits)
  obtain d0 where d0: "limit_slots (Some m) (data result) = Some d0" and sd: "slots d = slots d0"
    and td: "total_slots d = total_slots d0"
    using d by (auto simp add: add_timezone_def split: option.splits if_splits)
  obtain sd where sd0: "data result = Some sd"
    using d0 by (cases "data result") (auto simp add: limit_slots_def)
  show ?thesis
  proof (cases "slots sd")
    case None
    then show ?thesis using d0 sd0 sd assms(4) by (auto simp add: limit_slots_def)
  next
    case (Some ys)
    show ?thesis
    proof (cases "int (length ys) > m")
      case True
      then have "d0 = sd\<lparr>slots := Some (take (nat m) ys), total_slots := m\<rparr>"
        using d0 sd0 Some assms(3) by (auto simp add: limit_slots_def slice0_def)
      then have "xs = take (nat m) ys" "total_slots d = m"
        using sd td assms(4) by auto
      then show ?thesis using True m100 sr sd0 Some assms(3) by auto
    next
      case False
      then have "d0 = sd" using d0 sd0 Some by (auto simp add: limit_slots_def)
      then have "xs = ys" using sd Some assms(4) by simp
      then show ?thesis using False m100 sr sd0 Some by auto
    qed
  qed
qed

text \<open>Claim C9 at \<open>max_slots\<close> 2 and three scraped slots.\<close>

theorem max_slots_limits_response_witness:
  "to_number (gs_max_slots req_two_slots) = Some 2 \<and> (1::int) \<le> 2 \<and>
   gs_scrape_result world_three_slots = Inr \<lparr>success = True, data = Some \<lparr>slots = Some [(''2026-01-22'', ''9:00 AM''), (''2026-01-22'', ''9:30 AM''), (''2026-01-23'', ''1:00 PM'')],
        total_slots = 3, total_days = 2, data_timezone = None\<rparr>\<rparr> \<and>
   int (length [(''2026-01-22'', ''9:00 AM''), (''2026-01-22'', ''9:30 AM'')]) \<le> 2 \<and>
   [(''2026-01-22'', ''9:00 AM''), (''2026-01-22'', ''9:30 AM'')] =
     take (nat 2) [(''2026-01-22'', ''9:00 AM''), (''2026-01-22'', ''9:30 AM''), (''2026-01-23'', ''1:00 PM'')]"
proof -
  have n: "to_number (gs_max_slots req_two_slots) = Some 2" by code_simp
  have s: "gs_scrape_result world_three_slots = Inr \<lparr>success = True, data = Some \<lparr>slots = Some [(''2026-01-22'', ''9:00 AM''), (''2026-01-22'', ''9:30 AM''), (''2026-01-23'', ''1:00 PM'')],
        total_slots = 3, total_days = 2, data_timezone = None\<rparr>\<rparr>"
    by (simp add: world_three_slots_def)
  note t = max_slots_limits_response [OF run_slots n, of "[(''2026-01-22'', ''9:00 AM''), (''2026-01-22'', ''9:30 AM'')]"]
  show ?thesis using t n s by simp
qed

end
